theory Spec2Isabelle
  imports Complex_Main "HOL-Library.Multiset" "HOL-Library.Log_Nat"
begin

section \<open>Data model (types.ts)\<close>

text \<open>
  The planner's \<^verbatim>\<open>Task\<close> interface. Nullable fields (\<^verbatim>\<open>string | null\<close>) are options,
  the two string unions are datatypes. Timestamps are the ISO strings the code stores.
  The fields \<^verbatim>\<open>id\<close> and \<^verbatim>\<open>notes\<close> are called \<open>id_task\<close> and \<open>notes_task\<close> here:
  \<open>id\<close> is HOL's identity function and \<open>notes\<close> is a keyword of Isabelle.
\<close>

datatype TaskType = Homework | Life

datatype Priority = Low | Medium | High

record Task =
  id_task :: string
  title :: string
  type :: TaskType
  subject :: "string option"
  notes_task :: "string option"
  createdAt :: string
  updatedAt :: string
  dueDate :: "string option"
  dueTime :: "string option"
  scheduledDate :: "string option"
  scheduledTime :: "string option"
  timeZone :: string
  estimatedMinutes :: "int option"
  priority :: "Priority option"
  pomodoroCount :: int
  completed :: bool
  completedAt :: "string option"
  order :: int

section \<open>Time and urgency (dateUtils.ts)\<close>

text \<open>
  An instant (a JavaScript \<^verbatim>\<open>Date\<close>) is its number of milliseconds since the epoch.
  Three things come from outside the repository and are parameters of the model:
  \<^item> \<open>toZonedTime\<close>, the function of date-fns-tz that \<^verbatim>\<open>combineDateAndTime\<close> calls on
    the date-time string and the zone name;
  \<^item> \<open>startOfDay\<close>, the start of the local calendar day of an instant, with which
    date-fns decides \<^verbatim>\<open>isToday\<close> (\<^verbatim>\<open>isSameDay(date, Date.now())\<close>);
  \<^item> \<open>now\<close>, the clock. One evaluation reads the clock once: the instants that
    \<^verbatim>\<open>new Date()\<close> and \<^verbatim>\<open>Date.now()\<close> return during one call are taken to be the same.
  Date strings are taken to resolve to valid instants.
\<close>

type_synonym instant = int

record Env =
  toZonedTime :: "string \<Rightarrow> string \<Rightarrow> instant"
  startOfDay :: "instant \<Rightarrow> instant"
  now :: instant

text \<open>
  A JavaScript number is an IEEE 754 double. A finite double is represented by the
  rational it denotes, and every arithmetic operation rounds its exact result to the
  nearest double, ties to the even significand: \<open>toDouble\<close> keeps 53 significant bits.
  The exponent is left unbounded: the instants of a \<^verbatim>\<open>Date\<close> are at most 8.64e15 ms in
  magnitude, so the values here stay far from the overflow and underflow thresholds.
  Negative zero is not told apart from zero (they are equal for \<^verbatim>\<open><\<close>, \<^verbatim>\<open>===\<close> and the
  sort).
\<close>

definition roundHalfEven :: "rat \<Rightarrow> int" where
  "roundHalfEven r =
     (let f = \<lfloor>r\<rfloor>; d = r - of_int f
      in if d < 1 / 2 then f
         else if 1 / 2 < d then f + 1
         else if even f then f else f + 1)"

text \<open>The binary exponent of a number other than zero: \<open>2 powi e \<le> \<bar>x\<bar> < 2 powi (e + 1)\<close>.\<close>

definition exponent :: "rat \<Rightarrow> int" where
  "exponent x =
     (let a = \<bar>x\<bar>
      in if 1 \<le> a then bitlen \<lfloor>a\<rfloor> - 1
         else - bitlen (\<lceil>1 / a\<rceil> - 1))"

definition toDouble :: "rat \<Rightarrow> rat" where
  "toDouble x =
     (if x = 0 then 0
      else (let ulp = 2 powi (exponent x - 52)
            in of_int (roundHalfEven (x / ulp)) * ulp))"

text \<open>The product \<^verbatim>\<open>a * b\<close> of two finite doubles.\<close>

definition times :: "rat \<Rightarrow> rat \<Rightarrow> rat" where
  "times a b = toDouble (a * b)"

text \<open>The sum \<^verbatim>\<open>a + b\<close> of two doubles that are integers; the sum is an integer again.\<close>

definition plusNumber :: "int \<Rightarrow> int \<Rightarrow> int" where
  "plusNumber a b = \<lfloor>toDouble (of_int a + of_int b)\<rfloor>"

text \<open>
  The values a score or a comparator can take: a finite double, the two infinities, and
  \<^verbatim>\<open>NaN\<close>, which \<^verbatim>\<open>Infinity - Infinity\<close> yields.
\<close>

datatype number = Fin rat | PosInf | NegInf | NaN

fun sub :: "number \<Rightarrow> number \<Rightarrow> number" where
  "sub (Fin a) (Fin b) = Fin (toDouble (a - b))"
| "sub (Fin a) PosInf = NegInf"
| "sub (Fin a) NegInf = PosInf"
| "sub PosInf (Fin b) = PosInf"
| "sub PosInf NegInf = PosInf"
| "sub PosInf PosInf = NaN"
| "sub NegInf (Fin b) = NegInf"
| "sub NegInf PosInf = NegInf"
| "sub NegInf NegInf = NaN"
| "sub NaN y = NaN"
| "sub x NaN = NaN"

text \<open>\<^verbatim>\<open>a < b\<close> on numbers: false whenever an operand is \<^verbatim>\<open>NaN\<close>.\<close>

fun lt :: "number \<Rightarrow> number \<Rightarrow> bool" where
  "lt (Fin a) (Fin b) = (a < b)"
| "lt (Fin a) PosInf = True"
| "lt NegInf (Fin b) = True"
| "lt NegInf PosInf = True"
| "lt x y = False"

definition combineDateAndTime :: "Env \<Rightarrow> string \<Rightarrow> string option \<Rightarrow> string \<Rightarrow> instant" where
  "combineDateAndTime env date time tz =
     (let dateTimeString =
            (case time of
               None \<Rightarrow> date @ ''T00:00:00''
             | Some t \<Rightarrow> if t \<noteq> [] then date @ ''T'' @ t @ '':00'' else date @ ''T00:00:00'')
      in toZonedTime env dateTimeString tz)"

definition getTaskDueDate :: "Env \<Rightarrow> Task \<Rightarrow> instant option" where
  "getTaskDueDate env task =
     (case dueDate task of
        None \<Rightarrow> None
      | Some d \<Rightarrow> if d = [] then None
                  else Some (combineDateAndTime env d (dueTime task) (timeZone task)))"

definition getTaskScheduledDate :: "Env \<Rightarrow> Task \<Rightarrow> instant option" where
  "getTaskScheduledDate env task =
     (case scheduledDate task of
        None \<Rightarrow> None
      | Some d \<Rightarrow> if d = [] then None
                  else Some (combineDateAndTime env d (scheduledTime task) (timeZone task)))"

text \<open>date-fns: \<^verbatim>\<open>isPast(d)\<close> is \<^verbatim>\<open>d < Date.now()\<close>; \<^verbatim>\<open>isToday(d)\<close> compares starts of day.\<close>

definition isPast :: "Env \<Rightarrow> instant \<Rightarrow> bool" where
  "isPast env d = (d < now env)"

definition isToday :: "Env \<Rightarrow> instant \<Rightarrow> bool" where
  "isToday env d = (startOfDay env d = startOfDay env (now env))"

text \<open>
  date-fns: the difference in milliseconds divided by 60000 and truncated towards zero
  (its default rounding method).
\<close>

definition differenceInMinutes :: "instant \<Rightarrow> instant \<Rightarrow> int" where
  "differenceInMinutes dateLeft dateRight =
     (let diff = dateLeft - dateRight
      in if diff < 0 then - ((- diff) div 60000) else diff div 60000)"

definition isTaskOverdue :: "Env \<Rightarrow> Task \<Rightarrow> bool" where
  "isTaskOverdue env task =
     (if completed task then False
      else case getTaskDueDate env task of None \<Rightarrow> False | Some d \<Rightarrow> isPast env d)"

definition isTaskDueToday :: "Env \<Rightarrow> Task \<Rightarrow> bool" where
  "isTaskDueToday env task =
     (case getTaskDueDate env task of None \<Rightarrow> False | Some d \<Rightarrow> isToday env d)"

definition isTaskScheduledToday :: "Env \<Rightarrow> Task \<Rightarrow> bool" where
  "isTaskScheduledToday env task =
     (case getTaskScheduledDate env task of None \<Rightarrow> False | Some d \<Rightarrow> isToday env d)"

definition getTaskUrgency :: "Env \<Rightarrow> Task \<Rightarrow> number" where
  "getTaskUrgency env task =
     (if completed task then PosInf
      else case getTaskDueDate env task of
        None \<Rightarrow> PosInf
      | Some due \<Rightarrow>
          (let minutesUntilDue = differenceInMinutes due (now env)
           in if minutesUntilDue < 0 then Fin (of_int minutesUntilDue)
              else
                (let p0 = (1 :: rat);
                     p1 = (if priority task = Some High then 1 / 2 else p0);
                     priorityMultiplier = (if priority task = Some Low then 3 / 2 else p1);
                     typeMultiplier =
                       (if type task = Homework then toDouble (9 / 10) else toDouble (11 / 10))
                 in Fin (times (times (of_int minutesUntilDue) priorityMultiplier)
                           typeMultiplier))))"

text \<open>
  \<^verbatim>\<open>groupTasksByUrgency\<close>. The body of the \<^verbatim>\<open>for\<close> loop is \<open>groupStep\<close>: the tests are
  tried in the order of the source, and \<^verbatim>\<open>push\<close> appends.
\<close>

record Groups =
  urgent :: "Task list"
  today :: "Task list"
  upcoming :: "Task list"
  someday :: "Task list"

definition groupStep :: "Env \<Rightarrow> Task \<Rightarrow> Groups \<Rightarrow> Groups" where
  "groupStep env task g =
     (if completed task then g
      else
        (let due = getTaskDueDate env task;
             scheduled = getTaskScheduledDate env task
         in if (case due of None \<Rightarrow> False | Some d \<Rightarrow> isPast env d \<or> isToday env d)
            then g\<lparr>urgent := urgent g @ [task]\<rparr>
            else if (case scheduled of None \<Rightarrow> False | Some d \<Rightarrow> isToday env d)
            then g\<lparr>today := today g @ [task]\<rparr>
            else if (case due of None \<Rightarrow> False
                     | Some d \<Rightarrow> differenceInMinutes d (now env) < 7 * 24 * 60)
            then g\<lparr>upcoming := upcoming g @ [task]\<rparr>
            else g\<lparr>someday := someday g @ [task]\<rparr>))"

text \<open>
  \<^verbatim>\<open>Array.prototype.sort\<close> with a comparator is a stable sort: \<open>x\<close> moves behind \<open>y\<close>
  only when the comparator's value is greater than zero, and a \<^verbatim>\<open>NaN\<close> counts as zero.
  The stable insertion sort below computes that permutation.
\<close>

fun insertBy :: "('a \<Rightarrow> 'a \<Rightarrow> number) \<Rightarrow> 'a \<Rightarrow> 'a list \<Rightarrow> 'a list" where
  "insertBy cmp x [] = [x]"
| "insertBy cmp x (y # ys) =
     (if lt (Fin 0) (cmp x y) then y # insertBy cmp x ys else x # y # ys)"

definition sortBy :: "('a \<Rightarrow> 'a \<Rightarrow> number) \<Rightarrow> 'a list \<Rightarrow> 'a list" where
  "sortBy cmp xs = foldr (insertBy cmp) xs []"

definition byUrgency :: "Env \<Rightarrow> Task \<Rightarrow> Task \<Rightarrow> number" where
  "byUrgency env a b = sub (getTaskUrgency env a) (getTaskUrgency env b)"

definition byOrder :: "Task \<Rightarrow> Task \<Rightarrow> number" where
  "byOrder a b = Fin (toDouble (of_int (order a) - of_int (order b)))"

definition groupTasksByUrgency :: "Env \<Rightarrow> Task list \<Rightarrow> Groups" where
  "groupTasksByUrgency env tasks =
     (let g = fold (groupStep env) tasks \<lparr>urgent = [], today = [], upcoming = [], someday = []\<rparr>
      in \<lparr>urgent = sortBy (byUrgency env) (urgent g),
          today = sortBy (byUrgency env) (today g),
          upcoming = sortBy (byUrgency env) (upcoming g),
          someday = sortBy byOrder (someday g)\<rparr>)"


subsection \<open>The score as the specification words it\<close>

text \<open>
  The due instant of the specification: null when the date field is null, and otherwise
  the date and the optional clock time (midnight when the time is absent) resolved in
  the task's zone. The minutes until due are the difference between the due instant and
  now, in minutes, negative when the task is overdue. The multipliers are the numbers
  0.5, 1.0, 1.5, 0.9 and 1.1, and the products are products of numbers.
\<close>

definition resolveInstant_spec :: "Env \<Rightarrow> string \<Rightarrow> string option \<Rightarrow> string \<Rightarrow> instant" where
  "resolveInstant_spec env date time zone =
     toZonedTime env
       (date @ ''T'' @ (case time of None \<Rightarrow> ''00:00'' | Some clock \<Rightarrow> clock) @ '':00'') zone"

definition effectiveDueInstant_spec :: "Env \<Rightarrow> Task \<Rightarrow> instant option" where
  "effectiveDueInstant_spec env task =
     (case dueDate task of
        None \<Rightarrow> None
      | Some date \<Rightarrow> Some (resolveInstant_spec env date (dueTime task) (timeZone task)))"

definition minutesUntilDue_spec :: "instant \<Rightarrow> instant \<Rightarrow> rat" where
  "minutesUntilDue_spec dueInstant current = of_int (dueInstant - current) / 60000"

fun priorityMultiplier_spec :: "Priority option \<Rightarrow> rat" where
  "priorityMultiplier_spec (Some High) = 1 / 2"
| "priorityMultiplier_spec (Some Medium) = 1"
| "priorityMultiplier_spec None = 1"
| "priorityMultiplier_spec (Some Low) = 3 / 2"

fun kindMultiplier_spec :: "TaskType \<Rightarrow> rat" where
  "kindMultiplier_spec Homework = toDouble (9 / 10)"
| "kindMultiplier_spec Life = toDouble (11 / 10)"

definition urgencyScore_spec :: "Env \<Rightarrow> Task \<Rightarrow> number" where
  "urgencyScore_spec env task =
     (case effectiveDueInstant_spec env task of
        None \<Rightarrow> PosInf
      | Some dueInstant \<Rightarrow>
          if completed task then PosInf
          else
            (let minutesUntilDue = minutesUntilDue_spec dueInstant (now env)
             in if minutesUntilDue < 0 then Fin minutesUntilDue
                else Fin (times (times (toDouble minutesUntilDue)
                                   (priorityMultiplier_spec (priority task)))
                            (kindMultiplier_spec (type task)))))"

subsection \<open>The score, amended\<close>

text \<open>
  As above, with two changes: a date or a time that is the empty string counts as
  absent, and the minutes until due are whole minutes, the difference truncated towards
  zero (so zero for a task that is overdue by less than a minute).
\<close>

definition present :: "string option \<Rightarrow> bool" where
  "present field = (field \<noteq> None \<and> field \<noteq> Some [])"

definition dueInstant_amended :: "Env \<Rightarrow> Task \<Rightarrow> instant option" where
  "dueInstant_amended env task =
     (if present (dueDate task)
      then Some (toZonedTime env
             (the (dueDate task) @ ''T''
                @ (if present (dueTime task) then the (dueTime task) else ''00:00'') @ '':00'')
             (timeZone task))
      else None)"

definition wholeMinutes :: "instant \<Rightarrow> instant \<Rightarrow> int" where
  "wholeMinutes dueInstant current =
     (let exact = minutesUntilDue_spec dueInstant current
      in if exact < 0 then \<lceil>exact\<rceil> else \<lfloor>exact\<rfloor>)"

definition urgencyScore_amended :: "Env \<Rightarrow> Task \<Rightarrow> number" where
  "urgencyScore_amended env task =
     (case dueInstant_amended env task of
        None \<Rightarrow> PosInf
      | Some dueInstant \<Rightarrow>
          if completed task then PosInf
          else
            (let minutesUntilDue = wholeMinutes dueInstant (now env)
             in if minutesUntilDue < 0 then Fin (of_int minutesUntilDue)
                else Fin (times (times (of_int minutesUntilDue)
                                   (priorityMultiplier_spec (priority task)))
                            (kindMultiplier_spec (type task)))))"

section \<open>The task store (taskStore.ts)\<close>

text \<open>
  \<^verbatim>\<open>Partial<Task>\<close>: every field may be absent (\<open>None\<close>) or present with a value of the
  field's type, so a nullable field is an option of an option.
\<close>

record TaskPatch =
  id_p :: "string option"
  title_p :: "string option"
  type_p :: "TaskType option"
  subject_p :: "string option option"
  notes_p :: "string option option"
  createdAt_p :: "string option"
  updatedAt_p :: "string option"
  dueDate_p :: "string option option"
  dueTime_p :: "string option option"
  scheduledDate_p :: "string option option"
  scheduledTime_p :: "string option option"
  timeZone_p :: "string option"
  estimatedMinutes_p :: "int option option"
  priority_p :: "Priority option option"
  pomodoroCount_p :: "int option"
  completed_p :: "bool option"
  completedAt_p :: "string option option"
  order_p :: "int option"

definition emptyPatch :: TaskPatch where
  "emptyPatch =
     \<lparr>id_p = None, title_p = None, type_p = None, subject_p = None, notes_p = None,
      createdAt_p = None, updatedAt_p = None, dueDate_p = None, dueTime_p = None,
      scheduledDate_p = None, scheduledTime_p = None, timeZone_p = None,
      estimatedMinutes_p = None, priority_p = None, pomodoroCount_p = None,
      completed_p = None, completedAt_p = None, order_p = None\<rparr>"

datatype ActionType = Create | Update | Delete

record UndoAction =
  type_action :: ActionType
  task :: Task
  previousTask :: "Task option"

record Store =
  tasks :: "Task list"
  undoStack :: "UndoAction list"

text \<open>
  What the outside answers during one call of the store: whether the awaited write of
  the storage adapter (\<^verbatim>\<open>saveTask\<close>, \<^verbatim>\<open>deleteTask\<close>) resolves or rejects, what
  \<^verbatim>\<open>new Date().toISOString()\<close> returns, what \<^verbatim>\<open>uuidv4()\<close> returns, and the zone
  \<^verbatim>\<open>getUserTimeZone()\<close> reports. The adapter's own data is not part of the store.
\<close>

record World =
  writeOk :: bool
  isoNow :: string
  uuidv4 :: string
  userTimeZone :: string

datatype error = StorageError

definition MAX_UNDO_STACK :: nat where
  "MAX_UNDO_STACK = 50"

text \<open>The stack is a JavaScript array: \<^verbatim>\<open>push\<close> appends, \<^verbatim>\<open>shift\<close> drops the first
  element, \<^verbatim>\<open>pop\<close> takes the last.\<close>

definition addToUndoStack :: "UndoAction \<Rightarrow> UndoAction list \<Rightarrow> UndoAction list" where
  "addToUndoStack action st =
     (let pushed = st @ [action]
      in if length pushed > MAX_UNDO_STACK then tl pushed else pushed)"

text \<open>The operator \<^verbatim>\<open>||\<close> on the fields of the partial: an absent, null, empty or zero
  value gives the right-hand side.\<close>

fun orString :: "string option \<Rightarrow> string \<Rightarrow> string" where
  "orString None d = d"
| "orString (Some v) d = (if v = [] then d else v)"

fun orNullString :: "string option option \<Rightarrow> string option" where
  "orNullString (Some (Some v)) = (if v = [] then None else Some v)"
| "orNullString _ = None"

fun orNullNumber :: "int option option \<Rightarrow> int option" where
  "orNullNumber (Some (Some n)) = (if n = 0 then None else Some n)"
| "orNullNumber _ = None"

fun orNullPriority :: "Priority option option \<Rightarrow> Priority option" where
  "orNullPriority (Some (Some v)) = Some v"
| "orNullPriority _ = None"

fun orType :: "TaskType option \<Rightarrow> TaskType \<Rightarrow> TaskType" where
  "orType None d = d"
| "orType (Some v) d = v"

fun findIndex :: "('a \<Rightarrow> bool) \<Rightarrow> 'a list \<Rightarrow> nat option" where
  "findIndex P [] = None"
| "findIndex P (x # xs) = (if P x then Some 0 else map_option Suc (findIndex P xs))"

text \<open>\<^verbatim>\<open>Math.max(...orders)\<close> on a non-empty array, and 0 on the empty one.\<close>

definition maxOrder :: "Task list \<Rightarrow> int" where
  "maxOrder currentTasks =
     (case currentTasks of [] \<Rightarrow> 0 | t # ts \<Rightarrow> fold max (map order ts) (order t))"

definition newTask :: "World \<Rightarrow> TaskPatch \<Rightarrow> Task list \<Rightarrow> Task" where
  "newTask w data currentTasks =
     \<lparr>id_task = uuidv4 w,
      title = orString (title_p data) ''Untitled Task'',
      type = orType (type_p data) Life,
      subject = orNullString (subject_p data),
      notes_task = orNullString (notes_p data),
      createdAt = isoNow w,
      updatedAt = isoNow w,
      dueDate = orNullString (dueDate_p data),
      dueTime = orNullString (dueTime_p data),
      scheduledDate = orNullString (scheduledDate_p data),
      scheduledTime = orNullString (scheduledTime_p data),
      timeZone = userTimeZone w,
      estimatedMinutes = orNullNumber (estimatedMinutes_p data),
      priority = orNullPriority (priority_p data),
      pomodoroCount = 0,
      completed = False,
      completedAt = None,
      order = plusNumber (maxOrder currentTasks) 1\<rparr>"

definition createTask :: "World \<Rightarrow> TaskPatch \<Rightarrow> Store \<Rightarrow> (error + Task) \<times> Store" where
  "createTask w data s =
     (let currentTasks = tasks s;
          t = newTask w data currentTasks
      in if \<not> writeOk w then (Inl StorageError, s)
         else (Inr t,
               s\<lparr>tasks := currentTasks @ [t],
                 undoStack := addToUndoStack
                   \<lparr>type_action = Create, task = t, previousTask = None\<rparr> (undoStack s)\<rparr>))"

text \<open>The spread \<^verbatim>\<open>{...previousTask, ...updates, updatedAt: now}\<close>.\<close>

fun override :: "'a option \<Rightarrow> 'a \<Rightarrow> 'a" where
  "override None old = old"
| "override (Some v) old = v"

definition merge :: "Task \<Rightarrow> TaskPatch \<Rightarrow> string \<Rightarrow> Task" where
  "merge previous updates stamp =
     \<lparr>id_task = override (id_p updates) (id_task previous),
      title = override (title_p updates) (title previous),
      type = override (type_p updates) (type previous),
      subject = override (subject_p updates) (subject previous),
      notes_task = override (notes_p updates) (notes_task previous),
      createdAt = override (createdAt_p updates) (createdAt previous),
      updatedAt = stamp,
      dueDate = override (dueDate_p updates) (dueDate previous),
      dueTime = override (dueTime_p updates) (dueTime previous),
      scheduledDate = override (scheduledDate_p updates) (scheduledDate previous),
      scheduledTime = override (scheduledTime_p updates) (scheduledTime previous),
      timeZone = override (timeZone_p updates) (timeZone previous),
      estimatedMinutes = override (estimatedMinutes_p updates) (estimatedMinutes previous),
      priority = override (priority_p updates) (priority previous),
      pomodoroCount = override (pomodoroCount_p updates) (pomodoroCount previous),
      completed = override (completed_p updates) (completed previous),
      completedAt = override (completedAt_p updates) (completedAt previous),
      order = override (order_p updates) (order previous)\<rparr>"

definition updateTask ::
  "World \<Rightarrow> string \<Rightarrow> TaskPatch \<Rightarrow> Store \<Rightarrow> (error + Task option) \<times> Store" where
  "updateTask w i updates s =
     (let currentTasks = tasks s
      in case findIndex (\<lambda>t. id_task t = i) currentTasks of
           None \<Rightarrow> (Inr None, s)
         | Some index \<Rightarrow>
             (let previous = currentTasks ! index;
                  updatedTask = merge previous updates (isoNow w)
              in if \<not> writeOk w then (Inl StorageError, s)
                 else (Inr (Some updatedTask),
                       s\<lparr>tasks := currentTasks[index := updatedTask],
                         undoStack := addToUndoStack
                           \<lparr>type_action = Update, task = updatedTask,
                            previousTask = Some previous\<rparr> (undoStack s)\<rparr>)))"

definition removeTask :: "World \<Rightarrow> string \<Rightarrow> Store \<Rightarrow> (error + unit) \<times> Store" where
  "removeTask w i s =
     (let currentTasks = tasks s
      in case find (\<lambda>t. id_task t = i) currentTasks of
           None \<Rightarrow> (Inr (), s)
         | Some t \<Rightarrow>
             if \<not> writeOk w then (Inl StorageError, s)
             else (Inr (),
                   s\<lparr>tasks := filter (\<lambda>t. id_task t \<noteq> i) currentTasks,
                     undoStack := addToUndoStack
                       \<lparr>type_action = Delete, task = t, previousTask = None\<rparr> (undoStack s)\<rparr>))"

text \<open>\<^verbatim>\<open>toggleTaskCompletion\<close> reads the clock itself (\<open>stamp\<close>) before \<^verbatim>\<open>updateTask\<close>
  reads it again (\<open>isoNow w\<close>).\<close>

definition toggleTaskCompletion ::
  "World \<Rightarrow> string \<Rightarrow> string \<Rightarrow> Store \<Rightarrow> (error + unit) \<times> Store" where
  "toggleTaskCompletion w stamp i s =
     (case find (\<lambda>t. id_task t = i) (tasks s) of
        None \<Rightarrow> (Inr (), s)
      | Some t \<Rightarrow>
          (let updates = emptyPatch
                 \<lparr>completed_p := Some (\<not> completed t),
                  completedAt_p := Some (if \<not> completed t then Some stamp else None)\<rparr>
           in case updateTask w i updates s of
                (Inl e, s') \<Rightarrow> (Inl e, s')
              | (Inr r, s') \<Rightarrow> (Inr (), s')))"

definition incrementPomodoro :: "World \<Rightarrow> string \<Rightarrow> Store \<Rightarrow> (error + unit) \<times> Store" where
  "incrementPomodoro w i s =
     (case find (\<lambda>t. id_task t = i) (tasks s) of
        None \<Rightarrow> (Inr (), s)
      | Some t \<Rightarrow>
          (case updateTask w i (emptyPatch\<lparr>pomodoroCount_p := Some (plusNumber (pomodoroCount t) 1)\<rparr>) s of
             (Inl e, s') \<Rightarrow> (Inl e, s')
           | (Inr r, s') \<Rightarrow> (Inr (), s')))"

text \<open>\<^verbatim>\<open>undo\<close> pops the record before it awaits the adapter, so a rejected write leaves
  the stack one record shorter and the collection as it was.\<close>

definition undo :: "World \<Rightarrow> Store \<Rightarrow> (error + unit) \<times> Store" where
  "undo w s =
     (if undoStack s = [] then (Inr (), s)
      else
        (let action = last (undoStack s);
             popped = s\<lparr>undoStack := butlast (undoStack s)\<rparr>;
             currentTasks = tasks s
         in if type_action action = Create then
              (if \<not> writeOk w then (Inl StorageError, popped)
               else (Inr (),
                     popped\<lparr>tasks := filter (\<lambda>t. id_task t \<noteq> id_task (task action)) currentTasks\<rparr>))
            else if type_action action = Update \<and> previousTask action \<noteq> None then
              (case previousTask action of
                 None \<Rightarrow> (Inr (), popped)
               | Some previous \<Rightarrow>
                   if \<not> writeOk w then (Inl StorageError, popped)
                   else (case findIndex (\<lambda>t. id_task t = id_task previous) currentTasks of
                           None \<Rightarrow> (Inr (), popped)
                         | Some index \<Rightarrow>
                             (Inr (), popped\<lparr>tasks := currentTasks[index := previous]\<rparr>)))
            else if type_action action = Delete then
              (if \<not> writeOk w then (Inl StorageError, popped)
               else (Inr (), popped\<lparr>tasks := currentTasks @ [task action]\<rparr>))
            else (Inr (), popped)))"

definition canUndo :: "Store \<Rightarrow> bool" where
  "canUndo s = (length (undoStack s) > 0)"

subsection \<open>Sequences of calls\<close>

datatype Call =
    CreateTask World TaskPatch
  | UpdateTask World string TaskPatch
  | RemoveTask World string
  | ToggleTaskCompletion World string string
  | IncrementPomodoro World string
  | Undo World

fun exec :: "Call \<Rightarrow> Store \<Rightarrow> Store" where
  "exec (CreateTask w data) s = snd (createTask w data s)"
| "exec (UpdateTask w i updates) s = snd (updateTask w i updates s)"
| "exec (RemoveTask w i) s = snd (removeTask w i s)"
| "exec (ToggleTaskCompletion w stamp i) s = snd (toggleTaskCompletion w stamp i s)"
| "exec (IncrementPomodoro w i) s = snd (incrementPomodoro w i s)"
| "exec (Undo w) s = snd (undo w s)"

fun execAll :: "Call list \<Rightarrow> Store \<Rightarrow> Store" where
  "execAll [] s = s"
| "execAll (c # cs) s = execAll cs (exec c s)"


section \<open>Auxiliary notions for the proofs\<close>

text \<open>The bucket that the chain of tests in \<open>groupStep\<close> selects for a task that is not
  completed, as a function of the task.\<close>

datatype Bucket = Urgent | Today | Upcoming | Someday

definition bucketOf :: "Env \<Rightarrow> Task \<Rightarrow> Bucket" where
  "bucketOf env t =
     (if isTaskOverdue env (t\<lparr>completed := False\<rparr>) \<or> isTaskDueToday env t then Urgent
      else if isTaskScheduledToday env t then Today
      else if (case getTaskDueDate env t of None \<Rightarrow> False
               | Some d \<Rightarrow> differenceInMinutes d (now env) < 7 * 24 * 60) then Upcoming
      else Someday)"

definition inBucket :: "Env \<Rightarrow> Bucket \<Rightarrow> Task \<Rightarrow> bool" where
  "inBucket env b t = (\<not> completed t \<and> bucketOf env t = b)"

text \<open>The pair (\<^verbatim>\<open>completed\<close>, \<^verbatim>\<open>completedAt\<close>) of the task that \<^verbatim>\<open>find\<close> returns for an id.\<close>

definition completionState :: "Store \<Rightarrow> string \<Rightarrow> (bool \<times> string option) option" where
  "completionState s i =
     map_option (\<lambda>t. (completed t, completedAt t)) (find (\<lambda>t. id_task t = i) (tasks s))"

text \<open>The invariant of the data model: completed exactly when \<^verbatim>\<open>completedAt\<close> is set.
  For the store it is asked of the live collection and of the snapshots that the undo
  stack holds, since \<^verbatim>\<open>undo\<close> puts those back.\<close>

definition coherent :: "Task \<Rightarrow> bool" where
  "coherent t = (completed t \<longleftrightarrow> completedAt t \<noteq> None)"

definition coherentAction :: "UndoAction \<Rightarrow> bool" where
  "coherentAction a =
     (coherent (task a) \<and> (case previousTask a of None \<Rightarrow> True | Some p \<Rightarrow> coherent p))"

definition storeInv :: "Store \<Rightarrow> bool" where
  "storeInv s = (list_all coherent (tasks s) \<and> list_all coherentAction (undoStack s))"

text \<open>A patch that leaves both completion fields alone or sets both, consistently.\<close>

definition coherentPatch :: "TaskPatch \<Rightarrow> bool" where
  "coherentPatch u =
     (case (completed_p u, completedAt_p u) of
        (None, None) \<Rightarrow> True
      | (Some c, Some a) \<Rightarrow> (c \<longleftrightarrow> a \<noteq> None)
      | _ \<Rightarrow> False)"

fun coherentCall :: "Call \<Rightarrow> bool" where
  "coherentCall (UpdateTask w i u) = coherentPatch u"
| "coherentCall c = True"

text \<open>
  A call is an effective mutation of a store when it changes the collection and pushes
  one undo record: the adapter's write resolves, \<^verbatim>\<open>createTask\<close> draws an id that no
  live task has, and the other calls name the id of a live task; a patch given to
  \<^verbatim>\<open>updateTask\<close> does not change the id. \<^verbatim>\<open>undo\<close> is not a mutation.
\<close>

fun effective :: "Call \<Rightarrow> Store \<Rightarrow> bool" where
  "effective (CreateTask w d) s = (writeOk w \<and> uuidv4 w \<notin> set (map id_task (tasks s)))"
| "effective (UpdateTask w i u) s =
     (writeOk w \<and> i \<in> set (map id_task (tasks s)) \<and> (id_p u = None \<or> id_p u = Some i))"
| "effective (RemoveTask w i) s = (writeOk w \<and> i \<in> set (map id_task (tasks s)))"
| "effective (ToggleTaskCompletion w stamp i) s =
     (writeOk w \<and> i \<in> set (map id_task (tasks s)))"
| "effective (IncrementPomodoro w i) s = (writeOk w \<and> i \<in> set (map id_task (tasks s)))"
| "effective (Undo w) s = False"

fun effectiveAll :: "Call list \<Rightarrow> Store \<Rightarrow> bool" where
  "effectiveAll [] s = True"
| "effectiveAll (c # cs) s = (effective c s \<and> effectiveAll cs (exec c s))"

text \<open>\<open>n\<close> calls of \<^verbatim>\<open>undo\<close> in a row.\<close>

fun undoTimes :: "World \<Rightarrow> nat \<Rightarrow> Store \<Rightarrow> Store" where
  "undoTimes w 0 s = s"
| "undoTimes w (Suc n) s = undoTimes w n (exec (Undo w) s)"

text \<open>What a successful \<^verbatim>\<open>undo\<close> of one record does to the collection.\<close>

definition revert :: "UndoAction \<Rightarrow> Task list \<Rightarrow> Task list" where
  "revert a ts =
     (if type_action a = Create then filter (\<lambda>t. id_task t \<noteq> id_task (task a)) ts
      else if type_action a = Update \<and> previousTask a \<noteq> None then
        (case previousTask a of
           None \<Rightarrow> ts
         | Some p \<Rightarrow> (case findIndex (\<lambda>t. id_task t = id_task p) ts of
                        None \<Rightarrow> ts | Some k \<Rightarrow> ts[k := p]))
      else if type_action a = Delete then ts @ [task a]
      else ts)"

text \<open>Undoing the record \<open>a\<close> turns any arrangement of the collection \<open>after\<close> into
  an arrangement of the collection \<open>before\<close>.\<close>

abbreviation inverts :: "UndoAction \<Rightarrow> Task list \<Rightarrow> Task list \<Rightarrow> bool" where
  "inverts a after before \<equiv>
     (\<forall>ts'. mset ts' = mset after \<longrightarrow> mset (revert a ts') = mset before)"

section \<open>Sample data\<close>

text \<open>
  A sample environment: the system zone and the tasks' zone are both UTC, and the clock
  reads 1970-01-03T12:00:00Z, that is 216000000 ms. \<open>utcZoned\<close> lists, for the date-time
  strings of the sample tasks, the instants they denote in UTC.
\<close>

definition utcTable :: "(string \<times> instant) list" where
  "utcTable =
     [(''1970-01-03T11:55:00'', 215700000),
      (''1970-01-03T12:00:00'', 216000000),
      (''1970-01-03T15:00:00'', 226800000),
      (''1970-01-03T23:59:00'', 259140000),
      (''1970-01-08T12:00:00'', 648000000),
      (''1970-01-10T12:00:00'', 820800000)]"

definition utcZoned :: "string \<Rightarrow> string \<Rightarrow> instant" where
  "utcZoned str tz = (case map_of utcTable str of Some i \<Rightarrow> i | None \<Rightarrow> 0)"

definition utcStartOfDay :: "instant \<Rightarrow> instant" where
  "utcStartOfDay i = i - i mod 86400000"

definition sampleEnv :: Env where
  "sampleEnv = \<lparr>toZonedTime = utcZoned, startOfDay = utcStartOfDay, now = 216000000\<rparr>"

definition sampleTask :: Task where
  "sampleTask =
     \<lparr>id_task = ''t1'', title = ''Essay'', type = Homework, subject = None,
      notes_task = None, createdAt = ''1970-01-01T09:00:00.000Z'',
      updatedAt = ''1970-01-01T09:00:00.000Z'', dueDate = None, dueTime = None,
      scheduledDate = None, scheduledTime = None, timeZone = ''UTC'',
      estimatedMinutes = None, priority = None, pomodoroCount = 0, completed = False,
      completedAt = None, order = 1\<rparr>"

text \<open>Due five minutes ago, and scheduled for today.\<close>

definition overdueTask :: Task where
  "overdueTask = sampleTask
     \<lparr>id_task := ''t2'', dueDate := Some ''1970-01-03'', dueTime := Some ''11:55'',
      scheduledDate := Some ''1970-01-03'', scheduledTime := Some ''15:00'', order := 2\<rparr>"

text \<open>Scheduled for today, no due date.\<close>

definition scheduledTask :: Task where
  "scheduledTask = sampleTask
     \<lparr>id_task := ''t3'', type := Life, scheduledDate := Some ''1970-01-03'',
      scheduledTime := Some ''15:00'', order := 3\<rparr>"

text \<open>Due in five days.\<close>

definition upcomingTask :: Task where
  "upcomingTask = sampleTask
     \<lparr>id_task := ''t4'', dueDate := Some ''1970-01-08'', dueTime := Some ''12:00'',
      order := 4\<rparr>"

text \<open>Due in exactly 7 * 24 * 60 minutes.\<close>

definition weekTask :: Task where
  "weekTask = sampleTask
     \<lparr>id_task := ''t5'', dueDate := Some ''1970-01-10'', dueTime := Some ''12:00'',
      order := 5\<rparr>"

text \<open>Completed on the first of January, due today.\<close>

definition doneTask :: Task where
  "doneTask = sampleTask
     \<lparr>id_task := ''t6'', dueDate := Some ''1970-01-03'', dueTime := Some ''23:59'',
      completed := True, completedAt := Some ''1970-01-01T10:00:00.000Z'', order := 6\<rparr>"

text \<open>Due at noon, and the same environment half a minute after noon.\<close>

definition noonTask :: Task where
  "noonTask = sampleTask
     \<lparr>id_task := ''t7'', dueDate := Some ''1970-01-03'', dueTime := Some ''12:00'',
      order := 7\<rparr>"

definition lateEnv :: Env where
  "lateEnv = sampleEnv\<lparr>now := 216030000\<rparr>"

definition sampleWorld :: World where
  "sampleWorld =
     \<lparr>writeOk = True, isoNow = ''1970-01-03T12:00:00.000Z'', uuidv4 = ''u1'',
      userTimeZone = ''UTC''\<rparr>"

definition sampleTasks :: "Task list" where
  "sampleTasks = [sampleTask, overdueTask, scheduledTask, upcomingTask, weekTask, doneTask]"

definition emptyStore :: Store where
  "emptyStore = \<lparr>tasks = [], undoStack = []\<rparr>"

definition sampleStore :: Store where
  "sampleStore = \<lparr>tasks = [sampleTask, doneTask], undoStack = []\<rparr>"

text \<open>The \<open>n\<close>-th of a series of \<^verbatim>\<open>createTask\<close> calls with pairwise different ids
  (\<open>x\<close>, \<open>xx\<close>, \<open>xxx\<close>, ...), and the first \<open>n\<close> of them.\<close>

definition createCall :: "nat \<Rightarrow> Call" where
  "createCall n = CreateTask (sampleWorld\<lparr>uuidv4 := replicate (Suc n) CHR ''x''\<rparr>) emptyPatch"

definition manyCreates :: "nat \<Rightarrow> Call list" where
  "manyCreates n = map createCall [0..<n]"

definition sampleCalls :: "Call list" where
  "sampleCalls =
     [ToggleTaskCompletion sampleWorld ''1970-01-03T12:00:00.000Z'' ''t1'',
      CreateTask sampleWorld emptyPatch,
      UpdateTask sampleWorld ''t6''
        (emptyPatch\<lparr>completed_p := Some False, completedAt_p := Some None\<rparr>),
      Undo sampleWorld,
      RemoveTask sampleWorld ''t1'']"

text \<open>Three mutations of the sample store: a create, an update and a delete.\<close>

definition sampleMutations :: "Call list" where
  "sampleMutations =
     [CreateTask sampleWorld (emptyPatch\<lparr>title_p := Some ''Shopping''\<rparr>),
      UpdateTask sampleWorld ''t6'' (emptyPatch\<lparr>title_p := Some ''Essay, final''\<rparr>),
      RemoveTask sampleWorld ''t1'']"

section \<open>Numbers\<close>

lemma roundHalfEven_error: "\<bar>of_int (roundHalfEven r) - r\<bar> \<le> 1 / 2"
proof -
  have "of_int \<lfloor>r\<rfloor> \<le> r" "r < of_int \<lfloor>r\<rfloor> + 1" by linarith+
  then show ?thesis
    by (auto simp: roundHalfEven_def Let_def abs_le_iff)
qed

lemma roundHalfEven_of_int: "roundHalfEven (of_int k) = k"
  by (simp add: roundHalfEven_def)

lemma exponent_le:
  assumes "x \<noteq> 0"
  shows "2 powi (exponent x) \<le> \<bar>x\<bar>"
proof (cases "1 \<le> \<bar>x\<bar>")
  case True
  let ?n = "\<lfloor>\<bar>x\<bar>\<rfloor>"
  from True have n: "0 < ?n" by linarith
  from bitlen_bounds [OF n] have "2 ^ nat (bitlen ?n - 1) \<le> ?n" by simp
  then have "(2::rat) ^ nat (bitlen ?n - 1) \<le> of_int ?n"
    by (metis of_int_le_iff of_int_numeral of_int_power)
  also have "\<dots> \<le> \<bar>x\<bar>" by linarith
  finally have le: "(2::rat) ^ nat (bitlen ?n - 1) \<le> \<bar>x\<bar>" .
  have "1 \<le> bitlen ?n" using n bitlen_eq_zero_iff [of ?n] bitlen_nonneg [of ?n] by linarith
  then have "(2::rat) powi (bitlen ?n - 1) = 2 ^ nat (bitlen ?n - 1)"
    by (simp add: power_int_def)
  with le True show ?thesis by (simp add: exponent_def Let_def)
next
  case False
  let ?a = "\<bar>x\<bar>"
  let ?m = "\<lceil>1 / ?a\<rceil>"
  from assms have a0: "0 < ?a" by simp
  from False a0 have "1 < 1 / ?a" by (simp add: field_simps)
  then have m: "0 < ?m - 1" by linarith
  from bitlen_bounds [OF m] have "?m - 1 < 2 ^ nat (bitlen (?m - 1))" by simp
  then have "?m \<le> 2 ^ nat (bitlen (?m - 1))" by linarith
  then have "(of_int ?m :: rat) \<le> 2 ^ nat (bitlen (?m - 1))"
    by (metis of_int_le_iff of_int_numeral of_int_power)
  moreover have "1 / ?a \<le> of_int ?m" by linarith
  ultimately have "1 / ?a \<le> 2 ^ nat (bitlen (?m - 1))" by linarith
  then have "1 / 2 ^ nat (bitlen (?m - 1)) \<le> ?a"
    using a0 by (simp add: field_simps)
  moreover have "(2::rat) powi (- bitlen (?m - 1)) = 1 / 2 ^ nat (bitlen (?m - 1))"
    using bitlen_nonneg [of "?m - 1"] by (simp add: power_int_def field_simps)
  ultimately show ?thesis using False by (simp add: exponent_def Let_def)
qed

lemma exponent_less:
  assumes "x \<noteq> 0"
  shows "\<bar>x\<bar> < 2 powi (exponent x + 1)"
proof (cases "1 \<le> \<bar>x\<bar>")
  case True
  let ?n = "\<lfloor>\<bar>x\<bar>\<rfloor>"
  from True have n: "0 < ?n" by linarith
  from bitlen_bounds [OF n] have "?n + 1 \<le> 2 ^ nat (bitlen ?n)" by simp
  then have "(of_int (?n + 1) :: rat) \<le> 2 ^ nat (bitlen ?n)"
    by (metis of_int_le_iff of_int_numeral of_int_power)
  moreover have "\<bar>x\<bar> < of_int (?n + 1)" by linarith
  ultimately have "\<bar>x\<bar> < 2 ^ nat (bitlen ?n)" by linarith
  moreover have "(2::rat) powi (bitlen ?n) = 2 ^ nat (bitlen ?n)"
    using bitlen_nonneg [of ?n] by (simp add: power_int_def)
  ultimately show ?thesis using True by (simp add: exponent_def Let_def)
next
  case False
  let ?a = "\<bar>x\<bar>"
  let ?m = "\<lceil>1 / ?a\<rceil>"
  let ?k = "bitlen (?m - 1)"
  from assms have a0: "0 < ?a" by simp
  from False a0 have "1 < 1 / ?a" by (simp add: field_simps)
  then have m: "0 < ?m - 1" by linarith
  have k1: "1 \<le> ?k"
    using m bitlen_eq_zero_iff [of "?m - 1"] bitlen_nonneg [of "?m - 1"] by linarith
  from bitlen_bounds [OF m] have "2 ^ nat (?k - 1) \<le> ?m - 1" by simp
  then have "(2::rat) ^ nat (?k - 1) \<le> of_int (?m - 1)"
    by (metis of_int_le_iff of_int_numeral of_int_power)
  moreover have "of_int (?m - 1) < 1 / ?a" by linarith
  ultimately have "(2::rat) ^ nat (?k - 1) < 1 / ?a" by linarith
  then have "?a * 2 ^ nat (?k - 1) < 1"
    using a0 by (simp add: field_simps)
  then have "?a < 1 / 2 ^ nat (?k - 1)"
    by (simp add: field_simps)
  moreover have "(2::rat) powi (- ?k + 1) = 1 / 2 ^ nat (?k - 1)"
  proof -
    have "- ?k + 1 = - int (nat (?k - 1))" using k1 by simp
    then show ?thesis by (simp only: power_int_minus power_int_of_nat) (simp add: field_simps)
  qed
  ultimately show ?thesis using False by (simp add: exponent_def Let_def)
qed

text \<open>Rounding moves a number by at most the fraction \<open>1 / 2 ^ 53\<close> of its magnitude.\<close>

lemma toDouble_error: "\<bar>toDouble x - x\<bar> \<le> \<bar>x\<bar> / 2 ^ 53"
proof (cases "x = 0")
  case True
  then show ?thesis by (simp add: toDouble_def)
next
  case False
  let ?ulp = "(2::rat) powi (exponent x - 52)"
  let ?n = "roundHalfEven (x / ?ulp)"
  have pos: "0 < ?ulp" by simp
  have ulp: "?ulp * 2 ^ 52 = 2 powi (exponent x)"
    by (simp add: power_int_diff)
  have "\<bar>toDouble x - x\<bar> = \<bar>of_int ?n - x / ?ulp\<bar> * ?ulp"
    using False pos by (simp add: toDouble_def Let_def abs_mult [symmetric] field_simps)
  also have "\<dots> \<le> (1 / 2) * ?ulp"
    using roundHalfEven_error [of "x / ?ulp"] pos by (intro mult_right_mono) simp_all
  also have "\<dots> = 2 powi (exponent x) / 2 ^ 53"
    using ulp by (simp add: field_simps)
  also have "\<dots> \<le> \<bar>x\<bar> / 2 ^ 53"
    using exponent_le [OF False] by (simp add: divide_right_mono)
  finally show ?thesis .
qed

lemma toDouble_bounds:
  assumes "0 < x"
  shows "x * (1 - 1 / 2 ^ 53) \<le> toDouble x" and "toDouble x \<le> x * (1 + 1 / 2 ^ 53)"
proof -
  from toDouble_error [of x] assms have e: "\<bar>toDouble x - x\<bar> \<le> x / 2 ^ 53" by simp
  have lo: "x * (1 - 1 / 2 ^ 53) = x - x / 2 ^ 53" and hi: "x * (1 + 1 / 2 ^ 53) = x + x / 2 ^ 53"
    by (simp_all add: algebra_simps)
  from e show "x * (1 - 1 / 2 ^ 53) \<le> toDouble x" unfolding lo by linarith
  from e show "toDouble x \<le> x * (1 + 1 / 2 ^ 53)" unfolding hi by linarith
qed

lemma toDouble_pos: "0 < x \<Longrightarrow> 0 < toDouble x"
proof -
  assume x: "0 < x"
  have "0 < x * (1 - 1 / 2 ^ 53)" using x by simp
  with toDouble_bounds(1) [OF x] show ?thesis by linarith
qed

text \<open>An integer below \<open>2 ^ 53\<close> in magnitude is a double.\<close>

lemma toDouble_of_int:
  assumes "\<bar>n\<bar> < 2 ^ 53"
  shows "toDouble (of_int n) = of_int n"
proof (cases "n = 0")
  case True
  then show ?thesis by (simp add: toDouble_def)
next
  case False
  let ?x = "of_int n :: rat"
  let ?e = "exponent ?x"
  have x0: "?x \<noteq> 0" using False by simp
  have "2 powi ?e \<le> \<bar>?x\<bar>" by (rule exponent_le [OF x0])
  also have "\<bar>?x\<bar> < 2 ^ 53" using assms
    by (metis of_int_abs of_int_less_iff of_int_numeral of_int_power)
  finally have "(2::rat) powi ?e < 2 powi 53" by simp
  then have e: "?e < 53"
    by (rule power_int_le_imp_less_exp [rotated]) simp_all
  define k where "k = nat (52 - ?e)"
  have ulp: "(2::rat) powi (?e - 52) = 1 / 2 ^ k"
    using e by (simp add: k_def power_int_def field_simps)
  have "?x / (1 / 2 ^ k) = of_int (n * 2 ^ k)" by simp
  then have "roundHalfEven (?x / (1 / 2 ^ k)) = n * 2 ^ k"
    by (simp only: roundHalfEven_of_int)
  then show ?thesis
    using x0 by (simp add: toDouble_def Let_def ulp)
qed

lemma plusNumber_exact:
  assumes "\<bar>a + b\<bar> \<le> 2 ^ 53"
  shows "plusNumber a b = a + b"
proof -
  have sum: "(of_int a + of_int b :: rat) = of_int (a + b)" by simp
  have big: "toDouble (2 ^ 53) = 2 ^ 53" "toDouble (- (2 ^ 53)) = - (2 ^ 53)"
    by code_simp+
  consider "a + b = 2 ^ 53" | "a + b = - (2 ^ 53)" | "\<bar>a + b\<bar> < 2 ^ 53"
    using assms by linarith
  then have "toDouble (of_int (a + b)) = of_int (a + b)"
  proof cases
    case 1
    then show ?thesis by (simp only: of_int_power of_int_numeral big)
  next
    case 2
    then show ?thesis by (simp only: of_int_minus of_int_power of_int_numeral big)
  next
    case 3
    then show ?thesis by (rule toDouble_of_int)
  qed
  then show ?thesis unfolding plusNumber_def sum by simp
qed

text \<open>With a positive factor, three times a positive number gives the greater product,
  also after rounding.\<close>

lemma times_three_less:
  assumes x: "0 < x" and t: "0 < t"
  shows "times (toDouble x) t < times (toDouble (3 * x)) t"
proof -
  let ?l = "1 - 1 / 2 ^ 53 :: rat"
  let ?u = "1 + 1 / 2 ^ 53 :: rat"
  have l: "0 < ?l" and u: "0 < ?u" by simp_all
  have dx: "0 < toDouble x" and d3: "0 < toDouble (3 * x)"
    using x by (simp_all add: toDouble_pos)
  have "times (toDouble x) t \<le> toDouble x * t * ?u"
    unfolding times_def using dx t by (intro toDouble_bounds(2)) simp
  also have "\<dots> \<le> x * ?u * t * ?u"
    using toDouble_bounds(2) [OF x] t u by (intro mult_right_mono) simp_all
  also have "\<dots> = (x * t) * (?u * ?u)" by simp
  also have "\<dots> < (x * t) * (3 * (?l * ?l))"
    using x t by (intro mult_strict_left_mono) simp_all
  also have "\<dots> = 3 * x * ?l * t * ?l" by simp
  also have "\<dots> \<le> toDouble (3 * x) * t * ?l"
  proof -
    have "0 < 3 * x" using x by simp
    from toDouble_bounds(1) [OF this] t l show ?thesis
      by (intro mult_right_mono) simp_all
  qed
  also have "\<dots> \<le> times (toDouble (3 * x)) t"
    unfolding times_def using d3 t by (intro toDouble_bounds(1)) simp
  finally show ?thesis .
qed

section \<open>Urgency score\<close>

lemma wholeMinutes_eq: "wholeMinutes l r = differenceInMinutes l r"
proof -
  have neg: "(of_int (l - r) / 60000 < (0::rat)) = (l - r < 0)"
    by (simp add: divide_less_0_iff)
  have fl: "\<lfloor>of_int k / (60000::rat)\<rfloor> = k div 60000" for k :: int
    using floor_divide_of_int_eq [of k 60000, where ?'a = rat] by simp
  have ce: "\<lceil>of_int k / (60000::rat)\<rceil> = - ((- k) div 60000)" for k :: int
    using fl [of "- k"] by (simp add: ceiling_def)
  show ?thesis
    by (simp add: wholeMinutes_def minutesUntilDue_spec_def differenceInMinutes_def
          Let_def neg fl ce del: of_int_diff)
qed

lemma dueInstant_amended_eq: "dueInstant_amended env t = getTaskDueDate env t"
proof (cases "dueDate t")
  case None
  then show ?thesis by (simp add: dueInstant_amended_def getTaskDueDate_def present_def)
next
  case (Some d)
  then show ?thesis
    by (cases "dueTime t")
       (simp_all add: dueInstant_amended_def getTaskDueDate_def combineDateAndTime_def
          present_def)
qed

lemmas dateDefs =
  getTaskDueDate_def getTaskScheduledDate_def combineDateAndTime_def
  isPast_def isToday_def differenceInMinutes_def

lemmas sampleDefs =
  sampleEnv_def sampleTask_def overdueTask_def scheduledTask_def upcomingTask_def
  weekTask_def doneTask_def utcZoned_def utcTable_def utcStartOfDay_def

text \<open>
  C1, as stated, at a task that is due at noon, looked at half a minute later. The task
  is overdue and the difference between its due instant and now is minus half a
  minute, so the specification's score is -1/2. \<^verbatim>\<open>differenceInMinutes\<close> truncates this
  difference to 0, which is not below 0, and \<^verbatim>\<open>getTaskUrgency\<close> returns the product
  0 * 1 * 0.9 = 0.
\<close>

theorem getTaskUrgency_spec_counterexample:
  "\<not> completed noonTask \<and>
   effectiveDueInstant_spec lateEnv noonTask = Some 216000000 \<and>
   getTaskDueDate lateEnv noonTask = Some 216000000 \<and>
   now lateEnv = 216030000 \<and>
   isTaskOverdue lateEnv noonTask \<and>
   differenceInMinutes 216000000 216030000 = 0 \<and>
   getTaskUrgency lateEnv noonTask = Fin 0 \<and>
   urgencyScore_spec lateEnv noonTask = Fin (- 1 / 2)"
  by code_simp

text \<open>
  C1, amended. For every task whose date strings resolve to valid instants, the score
  that \<^verbatim>\<open>getTaskUrgency\<close> computes is: plus infinity for a completed task or one
  without a due instant (a due date that is null or empty); else, with minutesUntilDue
  the whole minutes between now and the due instant, truncated towards zero,
  minutesUntilDue itself when it is negative, and otherwise the product
  (minutesUntilDue * priority multiplier) * kind multiplier of doubles, with the
  multipliers 0.5 (high), 1 (medium or absent), 1.5 (low) and 0.9 (homework), 1.1
  (life). A task that is overdue by less than a minute has the score 0.
\<close>

theorem getTaskUrgency_amended:
  "getTaskUrgency env t = urgencyScore_amended env t"
proof (cases "getTaskDueDate env t")
  case None
  then show ?thesis
    by (simp add: getTaskUrgency_def urgencyScore_amended_def dueInstant_amended_eq)
next
  case (Some due)
  show ?thesis
  proof (cases "priority t")
    case None
    with Some show ?thesis
      by (cases "type t")
         (simp_all add: getTaskUrgency_def urgencyScore_amended_def dueInstant_amended_eq
            wholeMinutes_eq Let_def)
  next
    case (Some p)
    with \<open>getTaskDueDate env t = Some due\<close> show ?thesis
      by (cases p; cases "type t")
         (simp_all add: getTaskUrgency_def urgencyScore_amended_def dueInstant_amended_eq
            wholeMinutes_eq Let_def)
  qed
qed

text \<open>The scores of the sample tasks: no due date, due five minutes ago, due in five
  days (7200 minutes, homework, no priority), and completed. The product
  7200 * 1.5 * 1.1 is the double 11880.000000000002.\<close>

lemma getTaskUrgency_samples:
  "getTaskUrgency sampleEnv sampleTask = PosInf"
  "getTaskUrgency sampleEnv overdueTask = Fin (- 5)"
  "getTaskUrgency sampleEnv upcomingTask = Fin 6480"
  "getTaskUrgency sampleEnv (upcomingTask\<lparr>type := Life, priority := Some Low\<rparr>)
     = Fin (11880 + 1 / 2 ^ 39)"
  "getTaskUrgency sampleEnv doneTask = PosInf"
  by code_simp+

lemma getTaskDueDate_priority:
  "getTaskDueDate env (t\<lparr>priority := p\<rparr>) = getTaskDueDate env t"
  by (cases "dueDate t") (simp_all add: getTaskDueDate_def)

section \<open>Priority and score\<close>

text \<open>
  C7, as stated, at an overdue task: two tasks that differ in priority only (high and
  low), not completed, due five minutes ago. Both scores are the minutes until due, -5,
  so the score of the high-priority task is not strictly less.
\<close>

theorem priority_order_overdue_counterexample:
  "\<not> completed overdueTask \<and>
   getTaskDueDate sampleEnv (overdueTask\<lparr>priority := Some High\<rparr>) = Some 215700000 \<and>
   getTaskDueDate sampleEnv (overdueTask\<lparr>priority := Some Low\<rparr>) = Some 215700000 \<and>
   getTaskUrgency sampleEnv (overdueTask\<lparr>priority := Some High\<rparr>) = Fin (- 5) \<and>
   getTaskUrgency sampleEnv (overdueTask\<lparr>priority := Some Low\<rparr>) = Fin (- 5) \<and>
   \<not> lt (getTaskUrgency sampleEnv (overdueTask\<lparr>priority := Some High\<rparr>))
         (getTaskUrgency sampleEnv (overdueTask\<lparr>priority := Some Low\<rparr>))"
  by (simp add: getTaskUrgency_def dateDefs sampleDefs)

text \<open>
  C7, amended. For a task that is not completed and has a due instant, the score with
  priority high is strictly less than the score with priority low (all other fields the
  same) when the due instant is at least one whole minute after now; when the whole
  minutes until due are zero or negative, the two scores are equal.
\<close>

theorem priority_order_future:
  assumes "\<not> completed t" and "getTaskDueDate env t = Some d"
  shows "(0 < differenceInMinutes d (now env) \<longrightarrow>
            lt (getTaskUrgency env (t\<lparr>priority := Some High\<rparr>))
               (getTaskUrgency env (t\<lparr>priority := Some Low\<rparr>))) \<and>
         (differenceInMinutes d (now env) \<le> 0 \<longrightarrow>
            getTaskUrgency env (t\<lparr>priority := Some High\<rparr>)
              = getTaskUrgency env (t\<lparr>priority := Some Low\<rparr>))"
proof -
  have due: "getTaskDueDate env (t\<lparr>priority := p\<rparr>) = Some d" for p
    using assms(2) by (simp add: getTaskDueDate_priority)
  let ?m = "differenceInMinutes d (now env)"
  let ?k = "if type t = Homework then toDouble (9 / 10) else toDouble (11 / 10)"
  have k: "0 < ?k" by (simp add: toDouble_pos)
  have high: "getTaskUrgency env (t\<lparr>priority := Some High\<rparr>)
      = (if ?m < 0 then Fin (of_int ?m) else Fin (times (times (of_int ?m) (1 / 2)) ?k))"
    using assms(1) by (simp add: getTaskUrgency_def due Let_def)
  have low: "getTaskUrgency env (t\<lparr>priority := Some Low\<rparr>)
      = (if ?m < 0 then Fin (of_int ?m) else Fin (times (times (of_int ?m) (3 / 2)) ?k))"
    using assms(1) by (simp add: getTaskUrgency_def due Let_def)
  have less: "times (times (of_int ?m) (1 / 2)) ?k < times (times (of_int ?m) (3 / 2)) ?k"
    if "0 < ?m"
  proof -
    from that have x: "0 < (of_int ?m / 2 :: rat)" by simp
    have half: "times (of_int ?m) (1 / 2) = toDouble (of_int ?m / 2)"
      by (simp add: times_def)
    have "(of_int ?m * (3 / 2) :: rat) = 3 * (of_int ?m / 2)" by simp
    then have three: "times (of_int ?m) (3 / 2) = toDouble (3 * (of_int ?m / 2))"
      unfolding times_def by (rule arg_cong)
    show ?thesis
      unfolding half three by (rule times_three_less [OF x k])
  qed
  have zero: "times (times 0 p) ?k = 0" for p
    by (simp add: times_def toDouble_def)
  show ?thesis
  proof (intro conjI impI)
    assume "0 < ?m"
    with less show "lt (getTaskUrgency env (t\<lparr>priority := Some High\<rparr>))
        (getTaskUrgency env (t\<lparr>priority := Some Low\<rparr>))"
      unfolding high low by simp
  next
    assume "?m \<le> 0"
    then consider "?m < 0" | "?m = 0" by linarith
    then show "getTaskUrgency env (t\<lparr>priority := Some High\<rparr>)
        = getTaskUrgency env (t\<lparr>priority := Some Low\<rparr>)"
    proof cases
      case 1
      then show ?thesis unfolding high low by simp
    next
      case 2
      then show ?thesis unfolding high low by (simp add: zero)
    qed
  qed
qed

theorem priority_order_future_witness:
  "\<not> completed upcomingTask \<and> getTaskDueDate sampleEnv upcomingTask = Some 648000000 \<and>
   0 < differenceInMinutes 648000000 (now sampleEnv) \<and>
   lt (getTaskUrgency sampleEnv (upcomingTask\<lparr>priority := Some High\<rparr>))
      (getTaskUrgency sampleEnv (upcomingTask\<lparr>priority := Some Low\<rparr>))"
proof -
  have a: "\<not> completed upcomingTask" by (simp add: sampleDefs)
  have b: "getTaskDueDate sampleEnv upcomingTask = Some 648000000"
    by (simp add: dateDefs sampleDefs)
  have c: "0 < differenceInMinutes 648000000 (now sampleEnv)"
    by (simp add: dateDefs sampleDefs)
  from priority_order_future [OF a b] c show ?thesis using a b by blast
qed

section \<open>Grouping by urgency\<close>

lemma mset_insertBy: "mset (insertBy cmp x xs) = add_mset x (mset xs)"
  by (induction xs) simp_all

lemma mset_sortBy: "mset (sortBy cmp xs) = mset xs"
  by (induction xs) (simp_all add: sortBy_def mset_insertBy)

lemma set_sortBy: "set (sortBy cmp xs) = set xs"
  by (metis mset_sortBy set_mset_mset)

lemma length_sortBy: "length (sortBy cmp xs) = length xs"
  by (metis mset_sortBy size_mset)

lemma getTaskDueDate_completed:
  "getTaskDueDate env (t\<lparr>completed := c\<rparr>) = getTaskDueDate env t"
  by (cases "dueDate t") (simp_all add: getTaskDueDate_def)

lemma groupStep_bucket:
  "groupStep env t g =
     (if completed t then g
      else case bucketOf env t of
             Urgent \<Rightarrow> g\<lparr>urgent := urgent g @ [t]\<rparr>
           | Today \<Rightarrow> g\<lparr>today := today g @ [t]\<rparr>
           | Upcoming \<Rightarrow> g\<lparr>upcoming := upcoming g @ [t]\<rparr>
           | Someday \<Rightarrow> g\<lparr>someday := someday g @ [t]\<rparr>)"
  by (cases "getTaskDueDate env t"; cases "getTaskScheduledDate env t")
     (simp_all add: groupStep_def bucketOf_def isTaskOverdue_def isTaskDueToday_def
        isTaskScheduledToday_def getTaskDueDate_completed Let_def)

lemma fold_groupStep:
  "fold (groupStep env) ts g =
     \<lparr>urgent = urgent g @ filter (inBucket env Urgent) ts,
      today = today g @ filter (inBucket env Today) ts,
      upcoming = upcoming g @ filter (inBucket env Upcoming) ts,
      someday = someday g @ filter (inBucket env Someday) ts\<rparr>"
proof (induction ts arbitrary: g)
  case Nil
  show ?case by simp
next
  case (Cons t ts)
  have step: "fold (groupStep env) (t # ts) g = fold (groupStep env) ts (groupStep env t g)"
    by simp
  have ib: "inBucket env b t = (\<not> completed t \<and> bucketOf env t = b)" for b
    by (simp add: inBucket_def)
  show ?case
    unfolding step Cons.IH
    by (cases "bucketOf env t") (simp_all add: groupStep_bucket [of env t g] ib)
qed

lemma groupTasksByUrgency_buckets:
  "groupTasksByUrgency env ts =
     \<lparr>urgent = sortBy (byUrgency env) (filter (inBucket env Urgent) ts),
      today = sortBy (byUrgency env) (filter (inBucket env Today) ts),
      upcoming = sortBy (byUrgency env) (filter (inBucket env Upcoming) ts),
      someday = sortBy byOrder (filter (inBucket env Someday) ts)\<rparr>"
  by (simp add: groupTasksByUrgency_def fold_groupStep Let_def)

lemma bucket_sets:
  "set (urgent (groupTasksByUrgency env ts)) = {t \<in> set ts. inBucket env Urgent t}"
  "set (today (groupTasksByUrgency env ts)) = {t \<in> set ts. inBucket env Today t}"
  "set (upcoming (groupTasksByUrgency env ts)) = {t \<in> set ts. inBucket env Upcoming t}"
  "set (someday (groupTasksByUrgency env ts)) = {t \<in> set ts. inBucket env Someday t}"
  by (simp_all add: groupTasksByUrgency_buckets set_sortBy)

lemma filter_buckets_mset:
  "mset (filter (inBucket env Urgent) ts) + mset (filter (inBucket env Today) ts)
     + mset (filter (inBucket env Upcoming) ts) + mset (filter (inBucket env Someday) ts)
   = mset (filter (\<lambda>t. \<not> completed t) ts)"
proof (induction ts)
  case Nil
  show ?case by simp
next
  case (Cons t ts)
  have ib: "inBucket env b t = (\<not> completed t \<and> bucketOf env t = b)" for b
    by (simp add: inBucket_def)
  from Cons show ?case
    by (cases "bucketOf env t") (simp_all add: ib)
qed

lemma filter_buckets_length:
  "length (filter (inBucket env Urgent) ts) + length (filter (inBucket env Today) ts)
     + length (filter (inBucket env Upcoming) ts) + length (filter (inBucket env Someday) ts)
   = length (filter (\<lambda>t. \<not> completed t) ts)"
proof (induction ts)
  case Nil
  show ?case by simp
next
  case (Cons t ts)
  have ib: "inBucket env b t = (\<not> completed t \<and> bucketOf env t = b)" for b
    by (simp add: inBucket_def)
  from Cons show ?case
    by (cases "bucketOf env t") (simp_all add: ib)
qed

lemma bucket_msets:
  "mset (urgent (groupTasksByUrgency env ts)) + mset (today (groupTasksByUrgency env ts))
     + mset (upcoming (groupTasksByUrgency env ts)) + mset (someday (groupTasksByUrgency env ts))
   = mset (filter (\<lambda>t. \<not> completed t) ts)"
  by (simp add: groupTasksByUrgency_buckets mset_sortBy filter_buckets_mset del: mset_filter)

lemma length_not_completed:
  "length (filter (\<lambda>t. \<not> completed t) ts) = length ts - length (filter completed ts)"
  using sum_length_filter_compl [of completed ts] by simp

lemma bucket_lengths:
  "length (urgent (groupTasksByUrgency env ts)) + length (today (groupTasksByUrgency env ts))
     + length (upcoming (groupTasksByUrgency env ts)) + length (someday (groupTasksByUrgency env ts))
   = length ts - length (filter completed ts)"
  by (simp add: groupTasksByUrgency_buckets length_sortBy filter_buckets_length
        length_not_completed)

lemma exactly_one_bucket:
  assumes "t \<in> set ts" and "\<not> completed t"
  shows "length (filter (\<lambda>b. b)
           [t \<in> set (urgent (groupTasksByUrgency env ts)),
            t \<in> set (today (groupTasksByUrgency env ts)),
            t \<in> set (upcoming (groupTasksByUrgency env ts)),
            t \<in> set (someday (groupTasksByUrgency env ts))]) = 1"
  using assms by (cases "bucketOf env t") (simp_all add: bucket_sets inBucket_def)

lemma urgent_before_today:
  assumes "t \<in> set ts" and "isTaskOverdue env t" and "isTaskScheduledToday env t"
  shows "t \<in> set (urgent (groupTasksByUrgency env ts)) \<and>
         t \<notin> set (today (groupTasksByUrgency env ts))"
proof -
  from assms(2) have nc: "\<not> completed t"
    by (auto simp: isTaskOverdue_def split: if_splits)
  then have "t\<lparr>completed := False\<rparr> = t" by simp
  with assms(2) have "bucketOf env t = Urgent" by (simp add: bucketOf_def)
  with assms(1) nc show ?thesis by (simp add: bucket_sets inBucket_def)
qed

lemma inBucket_tests:
  "inBucket env Urgent t \<longleftrightarrow>
     \<not> completed t \<and> (isTaskOverdue env t \<or> isTaskDueToday env t)"
  "inBucket env Today t \<longleftrightarrow>
     \<not> completed t \<and> \<not> (isTaskOverdue env t \<or> isTaskDueToday env t) \<and>
     isTaskScheduledToday env t"
  "inBucket env Upcoming t \<longleftrightarrow>
     \<not> completed t \<and> \<not> (isTaskOverdue env t \<or> isTaskDueToday env t) \<and>
     \<not> isTaskScheduledToday env t \<and>
     (\<exists>d. getTaskDueDate env t = Some d \<and> differenceInMinutes d (now env) < 7 * 24 * 60)"
  "inBucket env Someday t \<longleftrightarrow>
     \<not> completed t \<and> \<not> (isTaskOverdue env t \<or> isTaskDueToday env t) \<and>
     \<not> isTaskScheduledToday env t \<and>
     \<not> (\<exists>d. getTaskDueDate env t = Some d \<and> differenceInMinutes d (now env) < 7 * 24 * 60)"
proof -
  have same: "\<not> completed t \<Longrightarrow> t\<lparr>completed := False\<rparr> = t" by simp
  show "inBucket env Urgent t \<longleftrightarrow>
     \<not> completed t \<and> (isTaskOverdue env t \<or> isTaskDueToday env t)"
    by (cases "completed t") (simp_all add: inBucket_def bucketOf_def same)
  show "inBucket env Today t \<longleftrightarrow>
     \<not> completed t \<and> \<not> (isTaskOverdue env t \<or> isTaskDueToday env t) \<and>
     isTaskScheduledToday env t"
    by (cases "completed t") (simp_all add: inBucket_def bucketOf_def same)
  show "inBucket env Upcoming t \<longleftrightarrow>
     \<not> completed t \<and> \<not> (isTaskOverdue env t \<or> isTaskDueToday env t) \<and>
     \<not> isTaskScheduledToday env t \<and>
     (\<exists>d. getTaskDueDate env t = Some d \<and> differenceInMinutes d (now env) < 7 * 24 * 60)"
    by (cases "completed t"; cases "getTaskDueDate env t")
       (simp_all add: inBucket_def bucketOf_def same)
  show "inBucket env Someday t \<longleftrightarrow>
     \<not> completed t \<and> \<not> (isTaskOverdue env t \<or> isTaskDueToday env t) \<and>
     \<not> isTaskScheduledToday env t \<and>
     \<not> (\<exists>d. getTaskDueDate env t = Some d \<and> differenceInMinutes d (now env) < 7 * 24 * 60)"
    by (cases "completed t"; cases "getTaskDueDate env t")
       (simp_all add: inBucket_def bucketOf_def same)
qed

lemma bucket_members:
  "t \<in> set (urgent (groupTasksByUrgency env ts)) \<longleftrightarrow>
     t \<in> set ts \<and> \<not> completed t \<and> (isTaskOverdue env t \<or> isTaskDueToday env t)"
  "t \<in> set (today (groupTasksByUrgency env ts)) \<longleftrightarrow>
     t \<in> set ts \<and> \<not> completed t \<and> \<not> (isTaskOverdue env t \<or> isTaskDueToday env t) \<and>
     isTaskScheduledToday env t"
  "t \<in> set (upcoming (groupTasksByUrgency env ts)) \<longleftrightarrow>
     t \<in> set ts \<and> \<not> completed t \<and> \<not> (isTaskOverdue env t \<or> isTaskDueToday env t) \<and>
     \<not> isTaskScheduledToday env t \<and>
     (\<exists>d. getTaskDueDate env t = Some d \<and> differenceInMinutes d (now env) < 7 * 24 * 60)"
  "t \<in> set (someday (groupTasksByUrgency env ts)) \<longleftrightarrow>
     t \<in> set ts \<and> \<not> completed t \<and> \<not> (isTaskOverdue env t \<or> isTaskDueToday env t) \<and>
     \<not> isTaskScheduledToday env t \<and>
     \<not> (\<exists>d. getTaskDueDate env t = Some d \<and> differenceInMinutes d (now env) < 7 * 24 * 60)"
  unfolding bucket_sets by (simp_all only: mem_Collect_eq inBucket_tests)

text \<open>
  C4. \<^verbatim>\<open>groupTasksByUrgency\<close> partitions the tasks that are not completed: the four
  buckets together hold exactly these tasks, each occurrence once (as multisets), so the
  bucket sizes add up to the input length minus the number of completed tasks; no
  completed task is in any bucket; every task of the input that is not completed is in
  exactly one bucket. The bucket is the first one whose test the task passes, the tests
  being tried in this order: \<open>urgent\<close> for a due instant that is past or today,
  \<open>today\<close> for a scheduled instant that is today, \<open>upcoming\<close> for a due instant less
  than 7 * 24 * 60 minutes away, and \<open>someday\<close> for the rest. So a task that is overdue
  and also scheduled for today is in \<open>urgent\<close> and not in \<open>today\<close>.
\<close>

theorem groupTasksByUrgency_partition:
  "(let g = groupTasksByUrgency env ts in
     mset (urgent g) + mset (today g) + mset (upcoming g) + mset (someday g)
       = mset (filter (\<lambda>t. \<not> completed t) ts) \<and>
     length (urgent g) + length (today g) + length (upcoming g) + length (someday g)
       = length ts - length (filter completed ts) \<and>
     (\<forall>t. completed t \<longrightarrow>
        t \<notin> set (urgent g) \<and> t \<notin> set (today g) \<and> t \<notin> set (upcoming g) \<and> t \<notin> set (someday g)) \<and>
     (\<forall>t \<in> set ts. \<not> completed t \<longrightarrow>
        length (filter (\<lambda>b. b)
          [t \<in> set (urgent g), t \<in> set (today g), t \<in> set (upcoming g), t \<in> set (someday g)]) = 1) \<and>
     (\<forall>t \<in> set ts. isTaskOverdue env t \<and> isTaskScheduledToday env t \<longrightarrow>
        t \<in> set (urgent g) \<and> t \<notin> set (today g)) \<and>
     (\<forall>t. t \<in> set (urgent g) \<longleftrightarrow>
        t \<in> set ts \<and> \<not> completed t \<and> (isTaskOverdue env t \<or> isTaskDueToday env t)) \<and>
     (\<forall>t. t \<in> set (today g) \<longleftrightarrow>
        t \<in> set ts \<and> \<not> completed t \<and> \<not> (isTaskOverdue env t \<or> isTaskDueToday env t) \<and>
        isTaskScheduledToday env t) \<and>
     (\<forall>t. t \<in> set (upcoming g) \<longleftrightarrow>
        t \<in> set ts \<and> \<not> completed t \<and> \<not> (isTaskOverdue env t \<or> isTaskDueToday env t) \<and>
        \<not> isTaskScheduledToday env t \<and>
        (\<exists>d. getTaskDueDate env t = Some d \<and> differenceInMinutes d (now env) < 7 * 24 * 60)) \<and>
     (\<forall>t. t \<in> set (someday g) \<longleftrightarrow>
        t \<in> set ts \<and> \<not> completed t \<and> \<not> (isTaskOverdue env t \<or> isTaskDueToday env t) \<and>
        \<not> isTaskScheduledToday env t \<and>
        \<not> (\<exists>d. getTaskDueDate env t = Some d \<and> differenceInMinutes d (now env) < 7 * 24 * 60)))"
proof -
  let ?g = "groupTasksByUrgency env ts"
  have excl: "\<forall>t. completed t \<longrightarrow>
          t \<notin> set (urgent ?g) \<and> t \<notin> set (today ?g) \<and>
          t \<notin> set (upcoming ?g) \<and> t \<notin> set (someday ?g)"
    by (simp add: bucket_sets inBucket_def)
  have one: "\<forall>t \<in> set ts. \<not> completed t \<longrightarrow>
        length (filter (\<lambda>b. b)
          [t \<in> set (urgent ?g), t \<in> set (today ?g), t \<in> set (upcoming ?g),
           t \<in> set (someday ?g)]) = 1"
    using exactly_one_bucket [of _ ts env] by blast
  have first: "\<forall>t \<in> set ts. isTaskOverdue env t \<and> isTaskScheduledToday env t \<longrightarrow>
        t \<in> set (urgent ?g) \<and> t \<notin> set (today ?g)"
    using urgent_before_today [of _ ts env] by blast
  show ?thesis
    unfolding Let_def
    by (intro conjI allI bucket_msets bucket_lengths excl one first bucket_members
          excl [rule_format] )
qed

theorem groupTasksByUrgency_partition_witness:
  "overdueTask \<in> set sampleTasks \<and>
   isTaskOverdue sampleEnv overdueTask \<and> isTaskScheduledToday sampleEnv overdueTask \<and>
   overdueTask \<in> set (urgent (groupTasksByUrgency sampleEnv sampleTasks)) \<and>
   overdueTask \<notin> set (today (groupTasksByUrgency sampleEnv sampleTasks)) \<and>
   length (urgent (groupTasksByUrgency sampleEnv sampleTasks))
     + length (today (groupTasksByUrgency sampleEnv sampleTasks))
     + length (upcoming (groupTasksByUrgency sampleEnv sampleTasks))
     + length (someday (groupTasksByUrgency sampleEnv sampleTasks)) = 5"
proof -
  have a: "overdueTask \<in> set sampleTasks" by (simp add: sampleTasks_def)
  have b: "isTaskOverdue sampleEnv overdueTask"
    by (simp add: isTaskOverdue_def dateDefs sampleDefs)
  have c: "isTaskScheduledToday sampleEnv overdueTask"
    by (simp add: isTaskScheduledToday_def dateDefs sampleDefs)
  have d: "length sampleTasks - length (filter completed sampleTasks) = 5"
    by (simp add: sampleTasks_def sampleDefs)
  from groupTasksByUrgency_partition [of sampleEnv sampleTasks]
  have len: "length (urgent (groupTasksByUrgency sampleEnv sampleTasks))
     + length (today (groupTasksByUrgency sampleEnv sampleTasks))
     + length (upcoming (groupTasksByUrgency sampleEnv sampleTasks))
     + length (someday (groupTasksByUrgency sampleEnv sampleTasks))
     = length sampleTasks - length (filter completed sampleTasks)"
    and first: "\<forall>t \<in> set sampleTasks.
        isTaskOverdue sampleEnv t \<and> isTaskScheduledToday sampleEnv t \<longrightarrow>
        t \<in> set (urgent (groupTasksByUrgency sampleEnv sampleTasks)) \<and>
        t \<notin> set (today (groupTasksByUrgency sampleEnv sampleTasks))"
    unfolding Let_def by blast+
  from first a b c len d show ?thesis by simp
qed

text \<open>
  C5, as stated, at a task that is not completed, due exactly 7 * 24 * 60 minutes after
  now, neither overdue nor due today nor scheduled for today: the test for the upcoming
  bucket is \<^verbatim>\<open>differenceInMinutes(dueDate, now) < 7 * 24 * 60\<close>, which is false at
  10080, and the task goes to \<open>someday\<close>, not to \<open>upcoming\<close>.
\<close>

theorem week_boundary_counterexample:
  "\<not> completed weekTask \<and>
   getTaskDueDate sampleEnv weekTask = Some (now sampleEnv + 7 * 24 * 60 * 60000) \<and>
   differenceInMinutes (now sampleEnv + 7 * 24 * 60 * 60000) (now sampleEnv) = 7 * 24 * 60 \<and>
   \<not> isTaskOverdue sampleEnv weekTask \<and> \<not> isTaskDueToday sampleEnv weekTask \<and>
   \<not> isTaskScheduledToday sampleEnv weekTask \<and>
   upcoming (groupTasksByUrgency sampleEnv [weekTask]) = [] \<and>
   someday (groupTasksByUrgency sampleEnv [weekTask]) = [weekTask]"
  by (simp add: groupTasksByUrgency_def groupStep_def sortBy_def isTaskOverdue_def
        isTaskDueToday_def isTaskScheduledToday_def dateDefs sampleDefs)

text \<open>
  C5, amended. A task that is not completed, whose due instant is exactly 7 * 24 * 60
  minutes after now, and that is neither due today nor scheduled for today, is placed
  in the someday bucket and not in the upcoming bucket: the upcoming test is strict.
\<close>

theorem week_boundary_someday:
  assumes "t \<in> set ts" and "\<not> completed t" and "getTaskDueDate env t = Some d"
    and "differenceInMinutes d (now env) = 7 * 24 * 60"
    and "\<not> isTaskDueToday env t" and "\<not> isTaskScheduledToday env t"
  shows "t \<in> set (someday (groupTasksByUrgency env ts)) \<and>
         t \<notin> set (upcoming (groupTasksByUrgency env ts))"
proof -
  from assms(4) have "\<not> d < now env"
    by (auto simp: differenceInMinutes_def Let_def split: if_splits)
  with assms(2,3) have "\<not> isTaskOverdue env (t\<lparr>completed := False\<rparr>)"
    by (simp add: isTaskOverdue_def isPast_def getTaskDueDate_completed)
  with assms(3-6) have "bucketOf env t = Someday"
    by (simp add: bucketOf_def)
  with assms(1,2) show ?thesis
    by (simp add: bucket_sets inBucket_def)
qed

theorem week_boundary_someday_witness:
  "weekTask \<in> set sampleTasks \<and> \<not> completed weekTask \<and>
   getTaskDueDate sampleEnv weekTask = Some 820800000 \<and>
   differenceInMinutes 820800000 (now sampleEnv) = 7 * 24 * 60 \<and>
   \<not> isTaskDueToday sampleEnv weekTask \<and> \<not> isTaskScheduledToday sampleEnv weekTask \<and>
   weekTask \<in> set (someday (groupTasksByUrgency sampleEnv sampleTasks)) \<and>
   weekTask \<notin> set (upcoming (groupTasksByUrgency sampleEnv sampleTasks))"
proof -
  have a: "weekTask \<in> set sampleTasks" by (simp add: sampleTasks_def)
  have b: "\<not> completed weekTask" by (simp add: sampleDefs)
  have c: "getTaskDueDate sampleEnv weekTask = Some 820800000"
    by (simp add: dateDefs sampleDefs)
  have d: "differenceInMinutes 820800000 (now sampleEnv) = 7 * 24 * 60"
    by (simp add: dateDefs sampleDefs)
  have e: "\<not> isTaskDueToday sampleEnv weekTask"
    by (simp add: isTaskDueToday_def dateDefs sampleDefs)
  have f: "\<not> isTaskScheduledToday sampleEnv weekTask"
    by (simp add: isTaskScheduledToday_def dateDefs sampleDefs)
  from week_boundary_someday [OF a b c d e f] a b c d e f show ?thesis by blast
qed

section \<open>The store\<close>

subsection \<open>Creating a task\<close>

lemma maxOrder_Max: "ts \<noteq> [] \<Longrightarrow> maxOrder ts = Max (set (map order ts))"
proof (cases ts)
  case Nil
  assume "ts \<noteq> []"
  with Nil show ?thesis by simp
next
  case (Cons t rest)
  have "Max (set (map order (t # rest))) = fold max (map order rest) (order t)"
    by (simp only: list.map Max.set_eq_fold)
  with Cons show ?thesis by (simp add: maxOrder_def)
qed

text \<open>
  C10. When the adapter's write resolves, \<^verbatim>\<open>createTask\<close> returns the task \<open>newTask\<close>
  builds, appends it to the collection and pushes it as a create record. That task has
  the id \<^verbatim>\<open>uuidv4()\<close> generated, is not completed, has no \<^verbatim>\<open>completedAt\<close>, a pomodoro
  count of 0 and as order the sum \<^verbatim>\<open>maxOrder + 1\<close>, where \<^verbatim>\<open>maxOrder\<close> is the maximum
  order of the existing tasks (0 if there is none); the sum of the two numbers is the
  integer \<open>maxOrder + 1\<close> as long as the orders of the existing tasks are below \<open>2 ^ 53\<close>
  in magnitude. Whatever the partial holds for \<^verbatim>\<open>id\<close>, \<^verbatim>\<open>completed\<close>,
  \<^verbatim>\<open>completedAt\<close>, \<^verbatim>\<open>pomodoroCount\<close> and \<^verbatim>\<open>order\<close> makes no difference to the result.
\<close>

theorem createTask_defaults:
  assumes "writeOk w"
  shows "(let t = newTask w data (tasks s) in
          createTask w data s =
            (Inr t,
             s\<lparr>tasks := tasks s @ [t],
               undoStack := addToUndoStack
                 \<lparr>type_action = Create, task = t, previousTask = None\<rparr> (undoStack s)\<rparr>) \<and>
          id_task t = uuidv4 w \<and> \<not> completed t \<and> completedAt t = None \<and>
          pomodoroCount t = 0 \<and>
          order t
            = plusNumber (if tasks s = [] then 0 else Max (set (map order (tasks s)))) 1 \<and>
          ((\<forall>x \<in> set (tasks s). \<bar>order x\<bar> < 2 ^ 53) \<longrightarrow>
             order t = (if tasks s = [] then 0 else Max (set (map order (tasks s)))) + 1) \<and>
          createTask w
            (data\<lparr>id_p := a, completed_p := b, completedAt_p := c, pomodoroCount_p := d,
                  order_p := e\<rparr>) s
            = createTask w data s)"
proof -
  let ?m = "if tasks s = [] then 0 else Max (set (map order (tasks s)))"
  have m: "maxOrder (tasks s) = ?m"
    by (cases "tasks s = []") (simp_all add: maxOrder_Max, simp add: maxOrder_def)
  have ord: "order (newTask w data (tasks s)) = plusNumber ?m 1"
    unfolding m [symmetric] by (simp add: newTask_def)
  have exact: "plusNumber ?m 1 = ?m + 1" if bound: "\<forall>x \<in> set (tasks s). \<bar>order x\<bar> < 2 ^ 53"
  proof -
    have "\<bar>?m\<bar> < 2 ^ 53"
    proof (cases "tasks s = []")
      case True
      then show ?thesis by simp
    next
      case False
      then have "Max (set (map order (tasks s))) \<in> set (map order (tasks s))"
        by (intro Max_in) simp_all
      then obtain x where "x \<in> set (tasks s)" "order x = Max (set (map order (tasks s)))"
        by auto
      with bound False show ?thesis by (metis (full_types))
    qed
    then have "\<bar>?m + 1\<bar> \<le> 2 ^ 53" by linarith
    then show ?thesis by (rule plusNumber_exact)
  qed
  have same: "newTask w
      (data\<lparr>id_p := a, completed_p := b, completedAt_p := c, pomodoroCount_p := d,
            order_p := e\<rparr>) (tasks s) = newTask w data (tasks s)"
    by (simp add: newTask_def)
  have create: "createTask w data s =
      (Inr (newTask w data (tasks s)),
       s\<lparr>tasks := tasks s @ [newTask w data (tasks s)],
         undoStack := addToUndoStack
           \<lparr>type_action = Create, task = newTask w data (tasks s), previousTask = None\<rparr>
           (undoStack s)\<rparr>)"
    using assms by (simp add: createTask_def Let_def)
  have fields: "id_task (newTask w data (tasks s)) = uuidv4 w"
    "\<not> completed (newTask w data (tasks s))"
    "completedAt (newTask w data (tasks s)) = None"
    "pomodoroCount (newTask w data (tasks s)) = 0"
    by (simp_all add: newTask_def)
  have ignore: "createTask w
      (data\<lparr>id_p := a, completed_p := b, completedAt_p := c, pomodoroCount_p := d,
            order_p := e\<rparr>) s = createTask w data s"
    by (simp add: createTask_def Let_def same)
  have exact': "(\<forall>x \<in> set (tasks s). \<bar>order x\<bar> < 2 ^ 53) \<longrightarrow>
      order (newTask w data (tasks s)) = ?m + 1"
    using exact ord by simp
  show ?thesis
    unfolding Let_def by (intro conjI create fields ord exact' ignore)
qed

theorem createTask_defaults_witness:
  "writeOk sampleWorld \<and>
   tasks sampleStore = [sampleTask, doneTask] \<and>
   \<bar>order sampleTask\<bar> < 2 ^ 53 \<and> \<bar>order doneTask\<bar> < 2 ^ 53 \<and>
   fst (createTask sampleWorld
          (emptyPatch\<lparr>id_p := Some ''mine'', completed_p := Some True,
                      completedAt_p := Some (Some ''1970-01-02T00:00:00.000Z''),
                      pomodoroCount_p := Some 7, order_p := Some 40\<rparr>) sampleStore)
     = Inr (newTask sampleWorld emptyPatch (tasks sampleStore)) \<and>
   id_task (newTask sampleWorld emptyPatch (tasks sampleStore)) = ''u1'' \<and>
   order (newTask sampleWorld emptyPatch (tasks sampleStore)) = 7"
proof -
  have ok: "writeOk sampleWorld" by (simp add: sampleWorld_def)
  have bound: "\<forall>x \<in> set (tasks sampleStore). \<bar>order x\<bar> < 2 ^ 53"
    by (simp add: sampleStore_def sampleDefs)
  have m: "Max (set (map order (tasks sampleStore))) = 6"
    by (simp add: sampleStore_def sampleDefs)
  have ne: "tasks sampleStore \<noteq> []" by (simp add: sampleStore_def)
  have u: "uuidv4 sampleWorld = ''u1''" by (simp add: sampleWorld_def)
  note inst = createTask_defaults [OF ok, where data = emptyPatch and s = sampleStore
      and a = "Some ''mine''" and b = "Some True"
      and c = "Some (Some ''1970-01-02T00:00:00.000Z'')" and d = "Some 7" and e = "Some 40",
      unfolded Let_def]
  from inst have same: "createTask sampleWorld
          (emptyPatch\<lparr>id_p := Some ''mine'', completed_p := Some True,
                      completedAt_p := Some (Some ''1970-01-02T00:00:00.000Z''),
                      pomodoroCount_p := Some 7, order_p := Some 40\<rparr>) sampleStore
        = createTask sampleWorld emptyPatch sampleStore"
    by blast
  from inst have "\<exists>s'. createTask sampleWorld emptyPatch sampleStore
        = (Inr (newTask sampleWorld emptyPatch (tasks sampleStore)), s')"
    by blast
  then have ret: "fst (createTask sampleWorld emptyPatch sampleStore)
        = Inr (newTask sampleWorld emptyPatch (tasks sampleStore))"
    by auto
  from inst have idt: "id_task (newTask sampleWorld emptyPatch (tasks sampleStore))
        = uuidv4 sampleWorld"
    by blast
  from inst bound have ord: "order (newTask sampleWorld emptyPatch (tasks sampleStore))
        = (if tasks sampleStore = [] then 0
           else Max (set (map order (tasks sampleStore)))) + 1"
    by blast
  have ts: "tasks sampleStore = [sampleTask, doneTask]" by (simp add: sampleStore_def)
  have small: "\<bar>order sampleTask\<bar> < 2 ^ 53" "\<bar>order doneTask\<bar> < 2 ^ 53"
    by (simp_all add: sampleDefs)
  have r1: "fst (createTask sampleWorld
          (emptyPatch\<lparr>id_p := Some ''mine'', completed_p := Some True,
                      completedAt_p := Some (Some ''1970-01-02T00:00:00.000Z''),
                      pomodoroCount_p := Some 7, order_p := Some 40\<rparr>) sampleStore)
        = Inr (newTask sampleWorld emptyPatch (tasks sampleStore))"
    using same ret by simp
  have r2: "id_task (newTask sampleWorld emptyPatch (tasks sampleStore)) = ''u1''"
    using idt u by simp
  have r3: "order (newTask sampleWorld emptyPatch (tasks sampleStore)) = 7"
    using ord m ne by simp
  show ?thesis by (intro conjI ok ts small r1 r2 r3)
qed

text \<open>At an existing order of \<open>2 ^ 53\<close> the sum \<^verbatim>\<open>maxOrder + 1\<close> is the double \<open>2 ^ 53\<close>
  again, and the new task shares the order of the old one.\<close>

lemma newTask_order_rounds:
  "order (newTask sampleWorld emptyPatch [sampleTask\<lparr>order := 2 ^ 53\<rparr>]) = 2 ^ 53"
  by code_simp

subsection \<open>A write that fails\<close>



subsection \<open>Toggling completion\<close>

lemma findIndex_Some:
  "findIndex P xs = Some k \<Longrightarrow> k < length xs \<and> P (xs ! k) \<and> (\<forall>j<k. \<not> P (xs ! j))"
proof (induction xs arbitrary: k)
  case Nil
  then show ?case by simp
next
  case (Cons x xs)
  show ?case
  proof (cases "P x")
    case True
    with Cons.prems show ?thesis by simp
  next
    case False
    with Cons.prems obtain k' where k': "findIndex P xs = Some k'" "k = Suc k'"
      by auto
    from Cons.IH [OF k'(1)] False k'(2) show ?thesis
      by (auto simp: less_Suc_eq_0_disj)
  qed
qed

lemma findIndex_None: "findIndex P xs = None \<longleftrightarrow> (\<forall>x\<in>set xs. \<not> P x)"
  by (induction xs) auto

lemma find_findIndex:
  "find P xs = (case findIndex P xs of None \<Rightarrow> None | Some k \<Rightarrow> Some (xs ! k))"
  by (induction xs) (auto split: option.splits)

lemma findIndex_update:
  "findIndex P xs = Some k \<Longrightarrow> P v \<Longrightarrow> findIndex P (xs[k := v]) = Some k"
proof (induction xs arbitrary: k)
  case Nil
  then show ?case by simp
next
  case (Cons x xs)
  show ?case
  proof (cases "P x")
    case True
    with Cons.prems show ?thesis by simp
  next
    case False
    with Cons.prems obtain k' where k': "findIndex P xs = Some k'" "k = Suc k'"
      by auto
    from Cons.IH [OF k'(1) Cons.prems(2)] False k'(2) show ?thesis by simp
  qed
qed

lemma updateTask_present:
  assumes "findIndex (\<lambda>t. id_task t = i) (tasks s) = Some k" and "writeOk w"
  shows "updateTask w i u s =
           (Inr (Some (merge (tasks s ! k) u (isoNow w))),
            s\<lparr>tasks := (tasks s)[k := merge (tasks s ! k) u (isoNow w)],
              undoStack := addToUndoStack
                \<lparr>type_action = Update, task = merge (tasks s ! k) u (isoNow w),
                 previousTask = Some (tasks s ! k)\<rparr> (undoStack s)\<rparr>)"
  using assms by (simp add: updateTask_def Let_def)

lemma toggle_present:
  assumes "findIndex (\<lambda>t. id_task t = i) (tasks s) = Some k" and "writeOk w"
  shows "tasks (exec (ToggleTaskCompletion w stamp i) s) =
           (tasks s)[k := merge (tasks s ! k)
              (emptyPatch\<lparr>completed_p := Some (\<not> completed (tasks s ! k)),
                 completedAt_p := Some (if \<not> completed (tasks s ! k) then Some stamp else None)\<rparr>)
              (isoNow w)]"
  using assms
  by (simp add: toggleTaskCompletion_def find_findIndex updateTask_present Let_def)

lemma merge_toggle_fields:
  "id_task (merge t (emptyPatch\<lparr>completed_p := Some c, completedAt_p := Some a\<rparr>) n) = id_task t"
  "completed (merge t (emptyPatch\<lparr>completed_p := Some c, completedAt_p := Some a\<rparr>) n) = c"
  "completedAt (merge t (emptyPatch\<lparr>completed_p := Some c, completedAt_p := Some a\<rparr>) n) = a"
  by (simp_all add: merge_def emptyPatch_def)

text \<open>
  C6, amended. Two calls of \<^verbatim>\<open>toggleTaskCompletion\<close> on a task of the store, both with a
  write that resolves, bring \<^verbatim>\<open>completed\<close> back to its first value; \<^verbatim>\<open>completedAt\<close> is
  then null when the task was not completed at first, and the clock reading of the
  second call when it was. So a task that starts not completed, with no
  \<^verbatim>\<open>completedAt\<close>, gets its pair back, and a task that starts completed gets a new
  \<^verbatim>\<open>completedAt\<close>.
\<close>

theorem toggle_twice:
  assumes "find (\<lambda>t. id_task t = i) (tasks s) = Some t"
    and "writeOk wA" and "writeOk wB"
  shows "completionState
           (exec (ToggleTaskCompletion wB stampB i) (exec (ToggleTaskCompletion wA stampA i) s)) i
         = Some (completed t, if completed t then Some stampB else None)"
proof -
  from assms(1) obtain k where k: "findIndex (\<lambda>t. id_task t = i) (tasks s) = Some k"
    and t: "tasks s ! k = t"
    by (auto simp: find_findIndex split: option.splits)
  from findIndex_Some [OF k] have kl: "k < length (tasks s)" and idt: "id_task t = i"
    using t by auto
  define t1 where "t1 = merge t
     (emptyPatch\<lparr>completed_p := Some (\<not> completed t),
        completedAt_p := Some (if \<not> completed t then Some stampA else None)\<rparr>) (isoNow wA)"
  define s1 where "s1 = exec (ToggleTaskCompletion wA stampA i) s"
  have ts1: "tasks s1 = (tasks s)[k := t1]"
    unfolding s1_def t1_def using toggle_present [OF k assms(2)] t by simp
  have id1: "id_task t1 = i" and c1: "completed t1 = (\<not> completed t)"
    by (simp_all add: t1_def merge_toggle_fields idt)
  have k1: "findIndex (\<lambda>t. id_task t = i) (tasks s1) = Some k"
    unfolding ts1 using findIndex_update [OF k] id1 by simp
  have at1: "tasks s1 ! k = t1" using kl by (simp add: ts1)
  define t2 where "t2 = merge t1
     (emptyPatch\<lparr>completed_p := Some (\<not> completed t1),
        completedAt_p := Some (if \<not> completed t1 then Some stampB else None)\<rparr>) (isoNow wB)"
  have ts2: "tasks (exec (ToggleTaskCompletion wB stampB i) s1) = (tasks s1)[k := t2]"
    unfolding t2_def using toggle_present [OF k1 assms(3)] at1 by simp
  have id2: "id_task t2 = i" and c2: "completed t2 = completed t"
    and a2: "completedAt t2 = (if completed t then Some stampB else None)"
    by (simp_all add: t2_def merge_toggle_fields id1 c1)
  have k2: "findIndex (\<lambda>t. id_task t = i) ((tasks s1)[k := t2]) = Some k"
    using findIndex_update [OF k1] id2 by simp
  have "(tasks s1)[k := t2] ! k = t2" using kl by (simp add: ts1)
  with k2 have "find (\<lambda>t. id_task t = i) ((tasks s1)[k := t2]) = Some t2"
    by (simp add: find_findIndex)
  then have "find (\<lambda>t. id_task t = i) (tasks (exec (ToggleTaskCompletion wB stampB i) s1))
               = Some t2"
    by (simp only: ts2)
  then show ?thesis
    unfolding s1_def [symmetric] completionState_def by (simp only: option.map c2 a2)
qed

text \<open>
  C6, as stated, at a task completed on the first of January: after two toggles it is
  completed again, with the time of the second toggle as \<^verbatim>\<open>completedAt\<close>, not the
  original one.
\<close>

theorem toggle_twice_counterexample:
  "completionState sampleStore ''t6'' = Some (True, Some ''1970-01-01T10:00:00.000Z'') \<and>
   completionState
     (exec (ToggleTaskCompletion sampleWorld ''1970-01-03T12:00:09.000Z'' ''t6'')
        (exec (ToggleTaskCompletion sampleWorld ''1970-01-03T12:00:00.000Z'' ''t6'')
           sampleStore)) ''t6''
     = Some (True, Some ''1970-01-03T12:00:09.000Z'')"
  by (simp add: completionState_def toggleTaskCompletion_def updateTask_def merge_def
        emptyPatch_def sampleStore_def sampleWorld_def sampleDefs addToUndoStack_def
        MAX_UNDO_STACK_def Let_def)

theorem toggle_twice_witness:
  "find (\<lambda>t. id_task t = ''t1'') (tasks sampleStore) = Some sampleTask \<and>
   writeOk sampleWorld \<and>
   completionState sampleStore ''t1'' = Some (False, None) \<and>
   completionState
     (exec (ToggleTaskCompletion sampleWorld ''1970-01-03T12:00:09.000Z'' ''t1'')
        (exec (ToggleTaskCompletion sampleWorld ''1970-01-03T12:00:00.000Z'' ''t1'')
           sampleStore)) ''t1''
     = Some (False, None)"
proof -
  have a: "find (\<lambda>t. id_task t = ''t1'') (tasks sampleStore) = Some sampleTask"
    by (simp add: sampleStore_def sampleDefs)
  have b: "writeOk sampleWorld" by (simp add: sampleWorld_def)
  have c: "\<not> completed sampleTask" by (simp add: sampleDefs)
  have d: "completionState sampleStore ''t1'' = Some (False, None)"
    by (simp add: completionState_def sampleStore_def sampleDefs)
  from toggle_twice [OF a b b, where stampA = "''1970-01-03T12:00:00.000Z''"
      and stampB = "''1970-01-03T12:00:09.000Z''"]
  show ?thesis using a b c d by simp
qed

subsection \<open>Completion and its timestamp\<close>

lemma length_addToUndoStack:
  "length st \<le> MAX_UNDO_STACK \<Longrightarrow> length (addToUndoStack a st) \<le> MAX_UNDO_STACK"
  by (simp add: addToUndoStack_def Let_def)

lemma set_addToUndoStack: "set (addToUndoStack a st) \<subseteq> insert a (set st)"
proof -
  have "set (tl (st @ [a])) \<subseteq> set (st @ [a])"
    by (cases "st @ [a]") auto
  then show ?thesis by (auto simp: addToUndoStack_def Let_def)
qed

lemma list_all_addToUndoStack:
  "P a \<Longrightarrow> list_all P st \<Longrightarrow> list_all P (addToUndoStack a st)"
  using set_addToUndoStack [of a st] by (auto simp: list_all_iff)

lemma coherent_merge:
  assumes "coherent t" and "coherentPatch u"
  shows "coherent (merge t u n)"
proof (cases "completed_p u")
  case None
  with assms show ?thesis
    by (cases "completedAt_p u") (simp_all add: coherentPatch_def coherent_def merge_def)
next
  case (Some c)
  with assms show ?thesis
    by (cases "completedAt_p u") (simp_all add: coherentPatch_def coherent_def merge_def)
qed

lemma coherent_newTask: "coherent (newTask w d ts)"
  by (simp add: coherent_def newTask_def)

lemma list_all_update: "list_all P xs \<Longrightarrow> P v \<Longrightarrow> list_all P (xs[k := v])"
  by (metis list_all_iff set_update_subset_insert subsetD insertE)

lemma storeInv_createTask: "storeInv s \<Longrightarrow> storeInv (snd (createTask w d s))"
  by (simp add: storeInv_def createTask_def Let_def list_all_addToUndoStack
        coherentAction_def coherent_newTask)

lemma storeInv_updateTask:
  assumes "storeInv s" and "coherentPatch u"
  shows "storeInv (snd (updateTask w i u s))"
proof (cases "findIndex (\<lambda>t. id_task t = i) (tasks s)")
  case None
  with assms(1) show ?thesis by (simp add: updateTask_def)
next
  case (Some k)
  from findIndex_Some [OF Some] have "tasks s ! k \<in> set (tasks s)" by simp
  with assms(1) have prev: "coherent (tasks s ! k)"
    by (simp add: storeInv_def list_all_iff)
  then have new: "coherent (merge (tasks s ! k) u (isoNow w))"
    using assms(2) by (rule coherent_merge)
  from assms(1) prev new Some show ?thesis
    by (simp add: updateTask_def Let_def storeInv_def list_all_update
          list_all_addToUndoStack coherentAction_def)
qed

lemma find_Some_set: "find P xs = Some x \<Longrightarrow> x \<in> set xs"
  by (induction xs) (auto split: if_splits)

lemma storeInv_removeTask: "storeInv s \<Longrightarrow> storeInv (snd (removeTask w i s))"
proof (cases "find (\<lambda>t. id_task t = i) (tasks s)")
  case None
  assume "storeInv s"
  with None show ?thesis by (simp add: removeTask_def)
next
  case (Some t)
  assume inv: "storeInv s"
  from find_Some_set [OF Some] inv have "coherent t"
    by (simp add: storeInv_def list_all_iff)
  with inv Some show ?thesis
    by (simp add: removeTask_def storeInv_def list_all_addToUndoStack coherentAction_def)
       (simp add: list_all_iff)
qed

lemma coherentPatch_toggle:
  "coherentPatch (emptyPatch\<lparr>completed_p := Some c,
      completedAt_p := Some (if c then Some stamp else None)\<rparr>)"
  by (simp add: coherentPatch_def)

lemma storeInv_toggle:
  assumes "storeInv s"
  shows "storeInv (snd (toggleTaskCompletion w stamp i s))"
proof (cases "find (\<lambda>t. id_task t = i) (tasks s)")
  case None
  with assms show ?thesis by (simp add: toggleTaskCompletion_def)
next
  case (Some t)
  let ?u = "emptyPatch\<lparr>completed_p := Some (\<not> completed t),
      completedAt_p := Some (if \<not> completed t then Some stamp else None)\<rparr>"
  have "storeInv (snd (updateTask w i ?u s))"
    using assms coherentPatch_toggle [of "\<not> completed t" stamp]
    by (intro storeInv_updateTask) simp_all
  with Some show ?thesis
    by (auto simp: toggleTaskCompletion_def Let_def split: prod.splits sum.splits)
qed

lemma storeInv_increment:
  assumes "storeInv s"
  shows "storeInv (snd (incrementPomodoro w i s))"
proof (cases "find (\<lambda>t. id_task t = i) (tasks s)")
  case None
  with assms show ?thesis by (simp add: incrementPomodoro_def)
next
  case (Some t)
  have "coherentPatch (emptyPatch\<lparr>pomodoroCount_p := Some (plusNumber (pomodoroCount t) 1)\<rparr>)"
    by (simp add: coherentPatch_def emptyPatch_def)
  with assms have "storeInv (snd (updateTask w i
      (emptyPatch\<lparr>pomodoroCount_p := Some (plusNumber (pomodoroCount t) 1)\<rparr>) s))"
    by (rule storeInv_updateTask)
  with Some show ?thesis
    by (auto simp: incrementPomodoro_def split: prod.splits sum.splits)
qed

lemma storeInv_undo:
  assumes "storeInv s"
  shows "storeInv (snd (undo w s))"
proof (cases "undoStack s = []")
  case True
  with assms show ?thesis by (simp add: undo_def)
next
  case False
  let ?a = "last (undoStack s)"
  from False have "?a \<in> set (undoStack s)" by simp
  with assms have ca: "coherentAction ?a"
    by (simp add: storeInv_def list_all_iff)
  have rest: "list_all coherentAction (butlast (undoStack s))"
    using assms by (auto simp: storeInv_def list_all_iff dest: in_set_butlastD)
  have ts: "list_all coherent (tasks s)" using assms by (simp add: storeInv_def)
  have filt: "list_all coherent (filter Q (tasks s))" for Q
    using ts by (simp add: list_all_iff)
  from ca have ct: "coherent (task ?a)" by (simp add: coherentAction_def)
  show ?thesis
  proof (cases "previousTask ?a")
    case None
    with False rest ts filt ct show ?thesis
      by (simp add: undo_def Let_def storeInv_def)
  next
    case (Some p)
    with ca have "coherent p" by (simp add: coherentAction_def)
    with Some False rest ts filt ct show ?thesis
      by (simp add: undo_def Let_def storeInv_def list_all_update split: option.splits)
  qed
qed

lemma storeInv_exec: "storeInv s \<Longrightarrow> coherentCall c \<Longrightarrow> storeInv (exec c s)"
  by (cases c)
     (simp_all add: storeInv_createTask storeInv_updateTask storeInv_removeTask
        storeInv_toggle storeInv_increment storeInv_undo)

text \<open>
  C9, amended. If \<^verbatim>\<open>completed\<close> holds exactly when \<^verbatim>\<open>completedAt\<close> is set, for every task
  of the collection and every snapshot in the undo stack, then it still does after any
  sequence of calls of the store (create, update, delete, toggle, increment and undo,
  with writes that resolve or reject), provided every patch given to \<^verbatim>\<open>updateTask\<close>
  either leaves the two fields alone or sets both of them consistently.
\<close>

theorem completed_iff_completedAt:
  assumes "storeInv s" and "list_all coherentCall cs"
  shows "storeInv (execAll cs s) \<and>
         (\<forall>t \<in> set (tasks (execAll cs s)). completed t \<longleftrightarrow> completedAt t \<noteq> None)"
proof -
  from assms have "storeInv (execAll cs s)"
  proof (induction cs arbitrary: s)
    case Nil
    then show ?case by simp
  next
    case (Cons c cs)
    from Cons.prems have "storeInv (exec c s)" by (simp add: storeInv_exec)
    with Cons.prems show ?case by (simp add: Cons.IH)
  qed
  then show ?thesis by (simp add: storeInv_def list_all_iff coherent_def)
qed

text \<open>
  C9, as stated, at an \<^verbatim>\<open>updateTask\<close> whose patch is \<^verbatim>\<open>{completed: true}\<close>: the merge copies
  the patch, so the first task of the sample store ends completed with a null
  \<^verbatim>\<open>completedAt\<close>.
\<close>

theorem completed_iff_completedAt_counterexample:
  "storeInv sampleStore \<and>
   map completed (tasks (exec (UpdateTask sampleWorld ''t1'' (emptyPatch\<lparr>completed_p := Some True\<rparr>))
      sampleStore)) = [True, True] \<and>
   map completedAt (tasks (exec (UpdateTask sampleWorld ''t1'' (emptyPatch\<lparr>completed_p := Some True\<rparr>))
      sampleStore)) = [None, Some ''1970-01-01T10:00:00.000Z'']"
  by (simp add: storeInv_def coherent_def updateTask_def merge_def emptyPatch_def
        sampleStore_def sampleWorld_def sampleDefs Let_def)

theorem completed_iff_completedAt_witness:
  "storeInv sampleStore \<and> list_all coherentCall sampleCalls \<and>
   storeInv (execAll sampleCalls sampleStore)"
proof -
  have a: "storeInv sampleStore"
    by (simp add: storeInv_def coherent_def sampleStore_def sampleDefs)
  have b: "list_all coherentCall sampleCalls"
    by (simp add: sampleCalls_def coherentPatch_def emptyPatch_def)
  from completed_iff_completedAt [OF a b] a b show ?thesis by blast
qed

subsection \<open>Undo\<close>


lemma undo_nonempty:
  assumes "writeOk w" and "undoStack s = st @ [a]"
  shows "snd (undo w s) = s\<lparr>undoStack := st, tasks := revert a (tasks s)\<rparr>"
proof (cases "type_action a")
  case Create
  with assms show ?thesis by (simp add: undo_def revert_def Let_def)
next
  case Update
  with assms show ?thesis
    by (cases "previousTask a")
       (simp_all add: undo_def revert_def Let_def split: option.splits)
next
  case Delete
  with assms show ?thesis by (simp add: undo_def revert_def Let_def)
qed

lemma undoTimes_Suc_right: "undoTimes w (Suc n) s = exec (Undo w) (undoTimes w n s)"
  by (induction n arbitrary: s) simp_all

lemma addToUndoStack_drop:
  assumes "length st \<le> MAX_UNDO_STACK"
  shows "addToUndoStack a st = drop (Suc (length st) - MAX_UNDO_STACK) st @ [a]"
proof (cases "length st = MAX_UNDO_STACK")
  case True
  then have "st \<noteq> []" by (auto simp: MAX_UNDO_STACK_def)
  then have "tl (st @ [a]) = drop 1 st @ [a]" by (cases st) simp_all
  with True show ?thesis by (simp add: addToUndoStack_def Let_def)
next
  case False
  with assms show ?thesis by (simp add: addToUndoStack_def Let_def)
qed

subsection \<open>Lists with distinct ids\<close>

lemma distinct_ids_perm:
  assumes "mset xs = mset ys" and "distinct (map f xs)"
  shows "distinct (map f ys)"
proof -
  from assms(1) have "mset (map f xs) = mset (map f ys)" by simp
  with assms(2) show ?thesis by (metis mset_eq_imp_distinct_iff)
qed

lemma distinct_ids_eq:
  assumes "distinct (map f xs)" and "x \<in> set xs" and "y \<in> set xs" and "f x = f y"
  shows "x = y"
  using assms by (auto simp: distinct_map dest: inj_onD)

lemma filter_other_ids:
  assumes "distinct (map f xs)" and "x \<in> set xs"
  shows "mset (filter (\<lambda>y. f y \<noteq> f x) xs) = mset xs - {#x#}"
  using assms
proof (induction xs)
  case Nil
  then show ?case by simp
next
  case (Cons z zs)
  show ?case
  proof (cases "z = x")
    case True
    from Cons.prems(1) True have "\<forall>y\<in>set zs. f y \<noteq> f x"
      by (metis distinct.simps(2) image_eqI list.simps(9) set_map)
    then have "filter (\<lambda>y. f y \<noteq> f x) zs = zs" by (simp add: filter_id_conv)
    with True show ?thesis by simp
  next
    case False
    with Cons.prems have xin: "x \<in> set zs" and d: "distinct (map f zs)" by auto
    from Cons.prems(1) xin have "f z \<noteq> f x" by auto
    with Cons.IH [OF d xin] xin show ?thesis by simp
  qed
qed

lemma filter_fresh_id:
  assumes "i \<notin> set (map f xs)" and "f t = i" and "mset ys = mset (xs @ [t])"
  shows "mset (filter (\<lambda>y. f y \<noteq> i) ys) = mset xs"
proof -
  have "mset (filter (\<lambda>y. f y \<noteq> i) ys) = filter_mset (\<lambda>y. f y \<noteq> i) (mset ys)"
    by simp
  also have "\<dots> = filter_mset (\<lambda>y. f y \<noteq> i) (mset (xs @ [t]))"
    by (simp only: assms(3))
  also have "\<dots> = mset (filter (\<lambda>y. f y \<noteq> i) xs)"
    using assms(2) by simp
  also have "filter (\<lambda>y. f y \<noteq> i) xs = xs"
    using assms(1) by (auto simp: filter_id_conv)
  finally show ?thesis .
qed


subsection \<open>Each effective mutation is inverted by undoing its record\<close>

lemma create_inverts:
  assumes "uuidv4 w \<notin> set (map id_task ts)"
  shows "inverts \<lparr>type_action = Create, task = newTask w d ts, previousTask = None\<rparr>
           (ts @ [newTask w d ts]) ts"
proof (intro allI impI)
  fix ts'
  assume perm: "mset ts' = mset (ts @ [newTask w d ts])"
  have idt: "id_task (newTask w d ts) = uuidv4 w" by (simp add: newTask_def)
  have "revert \<lparr>type_action = Create, task = newTask w d ts, previousTask = None\<rparr> ts'
          = filter (\<lambda>y. id_task y \<noteq> uuidv4 w) ts'"
    by (simp add: revert_def idt)
  then show "mset (revert \<lparr>type_action = Create, task = newTask w d ts, previousTask = None\<rparr> ts')
               = mset ts"
    using filter_fresh_id [OF assms idt perm] by (simp only:)
qed

lemma update_inverts:
  assumes d: "distinct (map id_task ts)" and k: "k < length ts"
    and same: "id_task t' = id_task (ts ! k)"
  shows "inverts \<lparr>type_action = Update, task = t', previousTask = Some (ts ! k)\<rparr>
           (ts[k := t']) ts"
proof (intro allI impI)
  fix ts'
  assume perm: "mset ts' = mset (ts[k := t'])"
  let ?p = "ts ! k"
  have ids: "map id_task (ts[k := t']) = map id_task ts"
    using same by (simp add: map_update list_update_same_conv k)
  have d0: "distinct (map id_task (ts[k := t']))" unfolding ids by (rule d)
  have d': "distinct (map id_task ts')"
    by (rule distinct_ids_perm [OF perm [symmetric] d0])
  have "t' \<in> set (ts[k := t'])" using k by (simp add: set_update_memI)
  then have in': "t' \<in> set ts'" using perm by (metis set_mset_mset)
  then have "findIndex (\<lambda>t. id_task t = id_task ?p) ts' \<noteq> None"
    using same by (auto simp: findIndex_None)
  then obtain j where j: "findIndex (\<lambda>t. id_task t = id_task ?p) ts' = Some j"
    by auto
  from findIndex_Some [OF j] have jl: "j < length ts'" and jid: "id_task (ts' ! j) = id_task ?p"
    by auto
  have "ts' ! j = t'"
    using distinct_ids_eq [OF d', of "ts' ! j" t'] jl in' jid same by simp
  then have "mset (ts'[j := ?p]) = add_mset ?p (mset ts' - {#t'#})"
    using jl by (simp add: mset_update)
  also have "mset ts' - {#t'#} = mset ts - {#?p#}"
    using k by (simp add: perm mset_update)
  also have "add_mset ?p (mset ts - {#?p#}) = mset ts"
    using k by simp
  finally show "mset (revert \<lparr>type_action = Update, task = t', previousTask = Some ?p\<rparr> ts')
                  = mset ts"
    by (simp add: revert_def j)
qed

lemma delete_inverts:
  assumes "distinct (map id_task ts)" and "t \<in> set ts"
  shows "inverts \<lparr>type_action = Delete, task = t, previousTask = None\<rparr>
           (filter (\<lambda>x. id_task x \<noteq> id_task t) ts) ts"
proof (intro allI impI)
  fix ts'
  assume perm: "mset ts' = mset (filter (\<lambda>x. id_task x \<noteq> id_task t) ts)"
  have "mset (ts' @ [t]) = add_mset t (mset ts')" by simp
  also have "\<dots> = add_mset t (mset ts - {#t#})"
    by (simp only: perm filter_other_ids [OF assms])
  also have "\<dots> = mset ts" using assms(2) by simp
  finally show "mset (revert \<lparr>type_action = Delete, task = t, previousTask = None\<rparr> ts')
                  = mset ts"
    by (simp add: revert_def)
qed

lemma find_Some_P: "find P xs = Some x \<Longrightarrow> P x"
  by (induction xs) (auto split: if_splits)

lemma id_merge: "id_p u = None \<or> id_p u = Some (id_task t) \<Longrightarrow> id_task (merge t u n) = id_task t"
  by (auto simp: merge_def)

lemma update_step:
  assumes d: "distinct (map id_task (tasks s))" and ok: "writeOk w"
    and i: "i \<in> set (map id_task (tasks s))" and u: "id_p u = None \<or> id_p u = Some i"
  shows "\<exists>a. undoStack (snd (updateTask w i u s)) = addToUndoStack a (undoStack s) \<and>
             distinct (map id_task (tasks (snd (updateTask w i u s)))) \<and>
             inverts a (tasks (snd (updateTask w i u s))) (tasks s)"
proof -
  from i have "findIndex (\<lambda>t. id_task t = i) (tasks s) \<noteq> None"
    by (auto simp: findIndex_None)
  then obtain k where k: "findIndex (\<lambda>t. id_task t = i) (tasks s) = Some k" by auto
  from findIndex_Some [OF k] have kl: "k < length (tasks s)" and ki: "id_task (tasks s ! k) = i"
    by auto
  let ?t' = "merge (tasks s ! k) u (isoNow w)"
  have same: "id_task ?t' = id_task (tasks s ! k)" using u ki by (intro id_merge) simp
  have ids: "map id_task ((tasks s)[k := ?t']) = map id_task (tasks s)"
    using same kl by (simp add: map_update list_update_same_conv)
  show ?thesis
    using updateTask_present [OF k ok, of u] update_inverts [OF d kl same] d ids
    by auto
qed

lemma effective_step:
  assumes d: "distinct (map id_task (tasks s))" and e: "effective c s"
  shows "\<exists>a. undoStack (exec c s) = addToUndoStack a (undoStack s) \<and>
             distinct (map id_task (tasks (exec c s))) \<and>
             inverts a (tasks (exec c s)) (tasks s)"
proof (cases c)
  case (CreateTask w data)
  with e have ok: "writeOk w" and fresh: "uuidv4 w \<notin> set (map id_task (tasks s))" by auto
  have "id_task (newTask w data (tasks s)) = uuidv4 w" by (simp add: newTask_def)
  with d fresh ok CreateTask create_inverts [OF fresh, of data] show ?thesis
    by (auto simp: createTask_def Let_def)
next
  case (UpdateTask w i u)
  with e d show ?thesis using update_step [of s w i u] by auto
next
  case (RemoveTask w i)
  with e have ok: "writeOk w" and i: "i \<in> set (map id_task (tasks s))" by auto
  then have "find (\<lambda>t. id_task t = i) (tasks s) \<noteq> None"
    by (auto simp: find_None_iff)
  then obtain t where t: "find (\<lambda>t. id_task t = i) (tasks s) = Some t" by auto
  from find_Some_set [OF t] find_Some_P [OF t] have tin: "t \<in> set (tasks s)" and ti: "id_task t = i"
    by auto
  have "distinct (map id_task (filter (\<lambda>x. id_task x \<noteq> i) (tasks s)))"
    using d by (simp add: distinct_map_filter)
  with RemoveTask ok t ti delete_inverts [OF d tin] show ?thesis
    by (auto simp: removeTask_def)
next
  case (ToggleTaskCompletion w stamp i)
  with e have ok: "writeOk w" and i: "i \<in> set (map id_task (tasks s))" by auto
  then have "find (\<lambda>t. id_task t = i) (tasks s) \<noteq> None"
    by (auto simp: find_None_iff)
  then obtain t where t: "find (\<lambda>t. id_task t = i) (tasks s) = Some t" by auto
  let ?u = "emptyPatch\<lparr>completed_p := Some (\<not> completed t),
      completedAt_p := Some (if \<not> completed t then Some stamp else None)\<rparr>"
  have "exec c s = snd (updateTask w i ?u s)"
    using ToggleTaskCompletion t
    by (auto simp: toggleTaskCompletion_def Let_def split: prod.splits sum.splits)
  moreover have "id_p ?u = None" by (simp add: emptyPatch_def)
  ultimately show ?thesis using update_step [OF d ok i, of ?u] by simp
next
  case (IncrementPomodoro w i)
  with e have ok: "writeOk w" and i: "i \<in> set (map id_task (tasks s))" by auto
  then have "find (\<lambda>t. id_task t = i) (tasks s) \<noteq> None"
    by (auto simp: find_None_iff)
  then obtain t where t: "find (\<lambda>t. id_task t = i) (tasks s) = Some t" by auto
  let ?u = "emptyPatch\<lparr>pomodoroCount_p := Some (plusNumber (pomodoroCount t) 1)\<rparr>"
  have "exec c s = snd (updateTask w i ?u s)"
    using IncrementPomodoro t
    by (auto simp: incrementPomodoro_def split: prod.splits sum.splits)
  moreover have "id_p ?u = None" by (simp add: emptyPatch_def)
  ultimately show ?thesis using update_step [OF d ok i, of ?u] by simp
next
  case (Undo w)
  with e show ?thesis by simp
qed


subsection \<open>Mutations followed by as many undos\<close>

lemma exec_undo_nonempty:
  assumes "writeOk w" and "undoStack s = st @ [a]"
  shows "tasks (exec (Undo w) s) = revert a (tasks s)"
    and "undoStack (exec (Undo w) s) = st"
  using undo_nonempty [OF assms] by simp_all

lemma undo_after_mutations:
  assumes "distinct (map id_task (tasks s))"
    and "length (undoStack s) \<le> MAX_UNDO_STACK"
    and "effectiveAll cs s"
    and "length cs \<le> MAX_UNDO_STACK"
    and "writeOk w"
  shows "mset (tasks (undoTimes w (length cs) (execAll cs s))) = mset (tasks s) \<and>
         undoStack (undoTimes w (length cs) (execAll cs s))
           = drop (length (undoStack s) + length cs - MAX_UNDO_STACK) (undoStack s)"
  using assms(1-4)
proof (induction cs arbitrary: s)
  case Nil
  then show ?case by simp
next
  case (Cons c cs)
  let ?st = "undoStack s"
  let ?s1 = "exec c s"
  let ?n = "length cs"
  let ?s2 = "undoTimes w ?n (execAll cs ?s1)"
  from Cons.prems(3) have eff: "effective c s" and effs: "effectiveAll cs ?s1" by simp_all
  from effective_step [OF Cons.prems(1) eff] obtain a
    where st1: "undoStack ?s1 = addToUndoStack a ?st"
      and d1: "distinct (map id_task (tasks ?s1))"
      and inv: "inverts a (tasks ?s1) (tasks s)"
    by blast
  let ?j = "Suc (length ?st) - MAX_UNDO_STACK"
  have st1': "undoStack ?s1 = drop ?j ?st @ [a]"
    unfolding st1 by (rule addToUndoStack_drop [OF Cons.prems(2)])
  have len1: "length (undoStack ?s1) \<le> MAX_UNDO_STACK"
    unfolding st1 by (rule length_addToUndoStack [OF Cons.prems(2)])
  from Cons.prems(4) have n: "?n \<le> MAX_UNDO_STACK" and n': "?n < MAX_UNDO_STACK" by simp_all
  from Cons.IH [OF d1 len1 effs n]
  have ts2: "mset (tasks ?s2) = mset (tasks ?s1)"
    and st2: "undoStack ?s2 = drop (length (undoStack ?s1) + ?n - MAX_UNDO_STACK) (undoStack ?s1)"
    by simp_all
  let ?k = "length (undoStack ?s1) + ?n - MAX_UNDO_STACK"
  have k: "?k \<le> length (drop ?j ?st)"
    using n' by (simp add: st1')
  have st2': "undoStack ?s2 = drop (?k + ?j) ?st @ [a]"
    unfolding st2 using k by (simp add: st1' add.commute)
  have fin: "undoTimes w (length (c # cs)) (execAll (c # cs) s) = exec (Undo w) ?s2"
    using undoTimes_Suc_right [of w ?n "execAll cs ?s1"] by simp
  have "mset (tasks (exec (Undo w) ?s2)) = mset (tasks s)"
    unfolding exec_undo_nonempty(1) [OF assms(5) st2'] using inv ts2 by blast
  moreover have "undoStack (exec (Undo w) ?s2) = drop (?k + ?j) ?st"
    by (rule exec_undo_nonempty(2) [OF assms(5) st2'])
  moreover have "?k + ?j = length ?st + length (c # cs) - MAX_UNDO_STACK"
    using Cons.prems(2) n' by (simp add: st1')
  ultimately show ?case unfolding fin by simp
qed

subsection \<open>The bound of the undo stack\<close>








subsection \<open>Undoing sequences of mutations\<close>




text \<open>
  C2, as stated, at 51 mutations: 51 calls of \<^verbatim>\<open>createTask\<close> on the empty store, each
  with a new id and a write that resolves, followed by 51 calls of \<^verbatim>\<open>undo\<close>. The
  stack holds 50 records, so the task created first (id \<open>x\<close>) stays in the collection,
  which was empty before the sequence.
\<close>

theorem undo_restores_collection_counterexample:
  "tasks emptyStore = [] \<and>
   map id_task (tasks (undoTimes sampleWorld 51 (execAll (manyCreates 51) emptyStore))) = [''x'']"
  by code_simp

text \<open>
  C2, amended. Let the ids of the collection be pairwise different and the undo stack
  hold at most 50 records. After any sequence of N effective mutations with N at most
  50 (calls of create, update, delete, toggle or increment whose write resolves, where
  create draws an unused id, the others name a live task, and an update patch does not
  change the id), N calls of \<^verbatim>\<open>undo\<close> whose writes resolve leave a collection with exactly
  the tasks it had before the sequence, every field included (so ids, \<^verbatim>\<open>order\<close>,
  \<^verbatim>\<open>createdAt\<close> and \<^verbatim>\<open>updatedAt\<close> are the earlier ones); the order of the tasks in the
  array may differ, since a deleted task is put back at the end.
\<close>

theorem undo_restores_collection:
  assumes "distinct (map id_task (tasks s))"
    and "length (undoStack s) \<le> MAX_UNDO_STACK"
    and "effectiveAll cs s"
    and "length cs \<le> MAX_UNDO_STACK"
    and "writeOk w"
  shows "mset (tasks (undoTimes w (length cs) (execAll cs s))) = mset (tasks s)"
  using undo_after_mutations [OF assms] by simp

theorem undo_restores_collection_witness:
  "distinct (map id_task (tasks sampleStore)) \<and>
   length (undoStack sampleStore) \<le> MAX_UNDO_STACK \<and>
   effectiveAll sampleMutations sampleStore \<and>
   length sampleMutations \<le> MAX_UNDO_STACK \<and> writeOk sampleWorld \<and>
   mset (tasks (undoTimes sampleWorld (length sampleMutations)
           (execAll sampleMutations sampleStore))) = mset (tasks sampleStore) \<and>
   tasks (undoTimes sampleWorld (length sampleMutations)
           (execAll sampleMutations sampleStore)) = [doneTask, sampleTask]"
proof -
  have a: "distinct (map id_task (tasks sampleStore))"
    by (simp add: sampleStore_def sampleDefs)
  have b: "length (undoStack sampleStore) \<le> MAX_UNDO_STACK"
    by (simp add: sampleStore_def)
  have c: "effectiveAll sampleMutations sampleStore"
    by code_simp
  have d: "length sampleMutations \<le> MAX_UNDO_STACK"
    by (simp add: sampleMutations_def MAX_UNDO_STACK_def)
  have e: "writeOk sampleWorld" by (simp add: sampleWorld_def)
  have f: "tasks (undoTimes sampleWorld (length sampleMutations)
             (execAll sampleMutations sampleStore)) = [doneTask, sampleTask]"
    by code_simp
  from undo_restores_collection [OF a b c d e] a b c d e f show ?thesis by blast
qed



text \<open>
  Why the amended C2 asks that an update patch keep the id: \<^verbatim>\<open>undo\<close> looks the task up
  by the id of the earlier snapshot, finds none once the id has changed, and leaves the
  collection as it is.
\<close>

lemma undo_after_id_change:
  "map id_task (tasks sampleStore) = [''t1'', ''t6''] \<and>
   map id_task (tasks (undoTimes sampleWorld 1
      (execAll [UpdateTask sampleWorld ''t1'' (emptyPatch\<lparr>id_p := Some ''t9''\<rparr>)] sampleStore)))
     = [''t9'', ''t6'']"
  by code_simp

end
